theory Spec2Isabelle
  imports Main
begin

section \<open>Conventions of the embedding\<close>

text \<open>
  The C++ sources are embedded shallowly. A C++ \<^verbatim>\<open>int\<close> is a HOL \<open>int\<close>: every
  counter and index of the table code is bounded by the length of an allocated array.
  An array (\<^verbatim>\<open>int *\<close>, \<^verbatim>\<open>Array<int>\<close>, \<^verbatim>\<open>std::vector<int>\<close>) is an \<open>int list\<close>; a null
  pointer is the empty list. Every array access is checked: an access outside the
  allocated cells is undefined behaviour in C++ and is the error \<open>OutOfBounds\<close> here.
  \<^verbatim>\<open>mfem_error\<close>, \<^verbatim>\<open>MFEM_ABORT\<close> and a failed \<^verbatim>\<open>MFEM_VERIFY\<close> are the error \<open>Fatal\<close>; an
  allocation of negative size is \<open>BadAlloc\<close>, the use of a null pointer \<open>NullPointer\<close>,
  the use of a variable that was never given a value \<open>Indeterminate\<close>.
  Code under \<^verbatim>\<open>#ifdef MFEM_DEBUG\<close> is guarded by a boolean parameter \<open>dbg\<close>.

  Arithmetic on the values that the arrays hold (a column index plus one, an entity
  index times three plus an offset) is the arithmetic of a 32-bit \<^verbatim>\<open>int\<close>: the result is
  wrapped into the range from \<open>-2147483648\<close> to \<open>2147483647\<close>, which is what the compiled
  code computes. Arithmetic on positions in an array stays exact, for a position is
  bounded by the length of the array.
\<close>

datatype error = Fatal | OutOfBounds | BadAlloc | NullPointer | Indeterminate

definition bnd :: "error + 'a \<Rightarrow> ('a \<Rightarrow> error + 'b) \<Rightarrow> error + 'b" where
  "bnd m f = (case m of Inl e \<Rightarrow> Inl e | Inr x \<Rightarrow> f x)"

text \<open>The value of a 32-bit \<^verbatim>\<open>int\<close> computation whose exact result is \<open>x\<close>.\<close>

definition wrap :: "int \<Rightarrow> int" where
  "wrap x = (x + 2147483648) mod 4294967296 - 2147483648"

text \<open>Reading and writing one cell of an array.\<close>

definition rd :: "'a list \<Rightarrow> int \<Rightarrow> error + 'a" where
  "rd a i = (if 0 \<le> i \<and> i < int (length a) then Inr (a ! nat i) else Inl OutOfBounds)"

definition wr :: "'a list \<Rightarrow> int \<Rightarrow> 'a \<Rightarrow> error + 'a list" where
  "wr a i v = (if 0 \<le> i \<and> i < int (length a) then Inr (a[nat i := v]) else Inl OutOfBounds)"

text \<open>\<^verbatim>\<open>new int[n]\<close>: the cells of a fresh array are indeterminate in C++; they are
  \<open>0\<close> here, and the table algorithms overwrite every cell before they read it.\<close>

definition new_int :: "int \<Rightarrow> int list" where
  "new_int n = replicate (nat n) 0"

text \<open>A loop body run over a list of values, stopping at the first error.\<close>

fun foldM :: "('a \<Rightarrow> 's \<Rightarrow> error + 's) \<Rightarrow> 'a list \<Rightarrow> 's \<Rightarrow> error + 's" where
  "foldM f [] s = Inr s"
| "foldM f (x # xs) s = bnd (f x s) (foldM f xs)"

text \<open>\<^verbatim>\<open>for (k = lo; k < hi; k++) body\<close>, and \<^verbatim>\<open>for (k = hi; k > lo; k--) body\<close>.\<close>

definition for_loop :: "int \<Rightarrow> int \<Rightarrow> (int \<Rightarrow> 's \<Rightarrow> error + 's) \<Rightarrow> 's \<Rightarrow> error + 's" where
  "for_loop lo hi body = foldM body (map (\<lambda>d. lo + int d) [0..<nat (hi - lo)])"

definition for_down :: "int \<Rightarrow> int \<Rightarrow> (int \<Rightarrow> 's \<Rightarrow> error + 's) \<Rightarrow> 's \<Rightarrow> error + 's" where
  "for_down hi lo body = foldM body (map (\<lambda>d. hi - int d) [0..<nat (hi - lo)])"

section \<open>Table: the CSR incidence table\<close>

record Table =
  sizeT :: int
  I :: "int list"
  J :: "int list"

text \<open>The data invariant of the specification: \<open>I\<close> has \<open>size + 1\<close> cells, starts at
  \<open>0\<close>, never decreases, and its last cell is the number of cells of \<open>J\<close>.\<close>

definition wf_table :: "Table \<Rightarrow> bool" where
  "wf_table T \<longleftrightarrow>
     0 \<le> sizeT T \<and> length (I T) = nat (sizeT T) + 1 \<and> I T ! 0 = 0 \<and> sorted (I T) \<and>
     I T ! nat (sizeT T) = int (length (J T))"

text \<open>Row \<open>i\<close>: the cells \<open>J[I[i]]\<close> .. \<open>J[I[i+1] - 1]\<close>.\<close>

definition row :: "Table \<Rightarrow> nat \<Rightarrow> int list" where
  "row T i = map (\<lambda>k. J T ! k) [nat (I T ! i) ..< nat (I T ! (i + 1))]"

text \<open>The stored (row, column) pairs, row by row.\<close>

definition entries :: "Table \<Rightarrow> (int \<times> int) list" where
  "entries T = concat (map (\<lambda>i. map (\<lambda>c. (int i, c)) (row T i)) [0..<nat (sizeT T)])"

text \<open>No cell holds the unset marker or another negative number.\<close>

definition no_unset :: "Table \<Rightarrow> bool" where
  "no_unset T \<longleftrightarrow> (\<forall>c \<in> set (J T). 0 \<le> c)"

text \<open>\<^verbatim>\<open>Table::Table (int dim, int connections_per_row)\<close>\<close>

definition Table_ctor :: "int \<Rightarrow> int \<Rightarrow> error + Table" where
  "Table_ctor dim connections_per_row =
     (let sum = dim * connections_per_row in
      if dim + 1 < 0 \<or> sum < 0 then Inl BadAlloc
      else bnd (wr (new_int (dim + 1)) 0 0) (\<lambda>I0.
           bnd (for_loop 1 (dim + 1)
                  (\<lambda>i (Iv, Jv).
                     bnd (rd Iv (i - 1)) (\<lambda>a.
                     bnd (wr Iv i (a + connections_per_row)) (\<lambda>Iv'.
                     bnd (rd Iv' (i - 1)) (\<lambda>lo.
                     bnd (rd Iv' i) (\<lambda>hi.
                     bnd (for_loop lo hi (\<lambda>j Jw. wr Jw j (- 1)) Jv) (\<lambda>Jv'.
                     Inr (Iv', Jv')))))))
                  (I0, new_int sum))
             (\<lambda>(Iv, Jv). Inr \<lparr>sizeT = dim, I = Iv, J = Jv\<rparr>)))"

text \<open>\<^verbatim>\<open>void Table::SetDims(int rows, int nnz)\<close>\<close>

definition SetDims :: "Table \<Rightarrow> int \<Rightarrow> int \<Rightarrow> error + Table" where
  "SetDims T rows nnz =
     bnd (if I T \<noteq> [] then rd (I T) (sizeT T) else Inr 0) (\<lambda>j.
     let T1 = (if sizeT T \<noteq> rows
               then T\<lparr>sizeT := rows, I := (if rows \<ge> 0 then new_int (rows + 1) else [])\<rparr>
               else T);
         T2 = (if j \<noteq> nnz then T1\<lparr>J := (if nnz > 0 then new_int nnz else [])\<rparr> else T1)
     in if sizeT T2 \<ge> 0
        then bnd (wr (I T2) 0 0) (\<lambda>I1.
             bnd (wr I1 (sizeT T2) nnz) (\<lambda>I2. Inr (T2\<lparr>I := I2\<rparr>)))
        else Inr T2)"

text \<open>\<^verbatim>\<open>int Table::operator() (int i, int j) const\<close>: the scan of the row, \<open>n\<close> cells
  from \<open>k\<close> on, and the operator.\<close>

fun lookup_scan :: "int list \<Rightarrow> int \<Rightarrow> int \<Rightarrow> nat \<Rightarrow> error + int" where
  "lookup_scan Jv j k 0 = Inr (- 1)"
| "lookup_scan Jv j k (Suc n) =
     bnd (rd Jv k) (\<lambda>c.
       if c = j then Inr k
       else if c = - 1 then Inr (- 1)
       else lookup_scan Jv j (k + 1) n)"

definition Table_op :: "Table \<Rightarrow> int \<Rightarrow> int \<Rightarrow> error + int" where
  "Table_op T i j =
     (if i \<ge> sizeT T \<or> i < 0 then Inr (- 1)
      else bnd (rd (I T) (i + 1)) (\<lambda>end.
           bnd (rd (I T) i) (\<lambda>k. lookup_scan (J T) j k (nat (end - k)))))"

text \<open>\<^verbatim>\<open>int Table::Push(int i, int j)\<close>: the scan of the row, which returns the slot and
  the array \<open>J\<close>, and the method. Running off the end of the row is \<^verbatim>\<open>mfem_error\<close>.\<close>

fun push_scan :: "int list \<Rightarrow> int \<Rightarrow> int \<Rightarrow> nat \<Rightarrow> error + (int \<times> int list)" where
  "push_scan Jv j k 0 = Inl Fatal"
| "push_scan Jv j k (Suc n) =
     bnd (rd Jv k) (\<lambda>c.
       if c = j then Inr (k, Jv)
       else if c = - 1 then bnd (wr Jv k j) (\<lambda>Jv'. Inr (k, Jv'))
       else push_scan Jv j (k + 1) n)"

definition Push :: "bool \<Rightarrow> Table \<Rightarrow> int \<Rightarrow> int \<Rightarrow> error + (int \<times> Table)" where
  "Push dbg T i j =
     (if dbg \<and> (i \<ge> sizeT T \<or> i < 0) then Inl Fatal
      else bnd (rd (I T) i) (\<lambda>k.
           bnd (rd (I T) (i + 1)) (\<lambda>end.
           bnd (push_scan (J T) j k (nat (end - k))) (\<lambda>(slot, Jv).
           Inr (slot, T\<lparr>J := Jv\<rparr>)))))"

text \<open>\<^verbatim>\<open>void Table::Finalize()\<close>: the inner loop copies row cells into \<open>NewJ\<close> until the
  row ends or a cell holds \<open>-1\<close> (\<^verbatim>\<open>break\<close>); its state is \<open>(NewJ, n)\<close>.\<close>

fun copy_row :: "int list \<Rightarrow> int \<Rightarrow> nat \<Rightarrow> int list \<times> int \<Rightarrow> error + (int list \<times> int)" where
  "copy_row Jv j 0 (NewJ, n) = Inr (NewJ, n)"
| "copy_row Jv j (Suc m) (NewJ, n) =
     bnd (rd Jv j) (\<lambda>c.
       if c = - 1 then Inr (NewJ, n)
       else bnd (wr NewJ n c) (\<lambda>NewJ'. copy_row Jv (j + 1) m (NewJ', n + 1)))"

definition Finalize :: "bool \<Rightarrow> Table \<Rightarrow> error + Table" where
  "Finalize dbg T =
     bnd (rd (I T) (sizeT T)) (\<lambda>nnz.
     bnd (for_loop 0 nnz
            (\<lambda>i sum. bnd (rd (J T) i) (\<lambda>c. Inr (if c \<noteq> - 1 then sum + 1 else sum))) 0) (\<lambda>sum.
     if sum \<noteq> nnz then
       bnd (for_loop 0 (sizeT T)
              (\<lambda>i (Iv, NewJ, n, newI).
                 bnd (rd Iv (i + 1)) (\<lambda>end.
                 bnd (rd Iv i) (\<lambda>lo.
                 bnd (copy_row (J T) lo (nat (end - lo)) (NewJ, n)) (\<lambda>(NewJ', n').
                 bnd (wr Iv i newI) (\<lambda>Iv'.
                 Inr (Iv', NewJ', n', n'))))))
              (I T, new_int sum, 0, 0)) (\<lambda>(Iv, NewJ, n, newI).
       bnd (wr Iv (sizeT T) sum) (\<lambda>Iv'.
       if dbg \<and> sum \<noteq> n then Inl Fatal
       else Inr (T\<lparr>I := Iv', J := NewJ\<rparr>)))
     else Inr T))"

text \<open>\<^verbatim>\<open>int Table::Width() const\<close>\<close>

definition Width :: "Table \<Rightarrow> error + int" where
  "Width T =
     bnd (rd (I T) (sizeT T)) (\<lambda>nnz.
     bnd (for_loop 0 nnz
            (\<lambda>k width. bnd (rd (J T) k) (\<lambda>c. Inr (if c > width then c else width))) (- 1))
       (\<lambda>width. Inr (wrap (width + 1))))"

text \<open>\<^verbatim>\<open>void Transpose (const Table &A, Table &At, int _ncols_A)\<close>: \<open>At\<close> is the table the
  caller passes in; the result is its new value.\<close>

definition Transpose :: "Table \<Rightarrow> Table \<Rightarrow> int \<Rightarrow> error + Table" where
  "Transpose A At ncols_arg =
     (let i_A = I A; j_A = J A; nrows_A = sizeT A in
      bnd (if ncols_arg < 0 then Width A else Inr ncols_arg) (\<lambda>ncols_A.
      bnd (rd i_A nrows_A) (\<lambda>nnz_A.
      bnd (SetDims At ncols_A nnz_A) (\<lambda>At1.
      bnd (for_loop 0 (ncols_A + 1) (\<lambda>i i_At. wr i_At i 0) (I At1)) (\<lambda>i_At.
      bnd (for_loop 0 nnz_A
             (\<lambda>i i_At. bnd (rd j_A i) (\<lambda>c.
                        bnd (rd i_At (c + 1)) (\<lambda>v. wr i_At (c + 1) (v + 1)))) i_At) (\<lambda>i_At.
      bnd (for_loop 1 ncols_A
             (\<lambda>i i_At. bnd (rd i_At (i + 1)) (\<lambda>a.
                        bnd (rd i_At i) (\<lambda>b. wr i_At (i + 1) (a + b)))) i_At) (\<lambda>i_At.
      bnd (for_loop 0 nrows_A
             (\<lambda>i st. bnd (rd i_A i) (\<lambda>lo.
                      bnd (rd i_A (i + 1)) (\<lambda>hi.
                      for_loop lo hi
                        (\<lambda>j (i_At, j_At).
                           bnd (rd j_A j) (\<lambda>c.
                           bnd (rd i_At c) (\<lambda>p.
                           bnd (wr i_At c (p + 1)) (\<lambda>i_At'.
                           bnd (wr j_At p i) (\<lambda>j_At'.
                           Inr (i_At', j_At')))))) st)))
             (i_At, J At1)) (\<lambda>(i_At, j_At).
      bnd (for_down ncols_A 0
             (\<lambda>i i_At. bnd (rd i_At (i - 1)) (\<lambda>v. wr i_At i v)) i_At) (\<lambda>i_At.
      bnd (wr i_At 0 0) (\<lambda>i_At.
      Inr (At1\<lparr>I := i_At, J := j_At\<rparr>)))))))))))"

text \<open>\<^verbatim>\<open>void Mult (const Table &A, const Table &B, Table &C)\<close>: the two walks over the
  products. The first counts the new columns of each row with the marker array, the
  second writes them into \<open>C\<close>.\<close>

definition mult_count :: "int \<Rightarrow> int \<Rightarrow> int list \<times> int \<Rightarrow> error + (int list \<times> int)" where
  "mult_count i m = (\<lambda>(B_marker, counter).
     bnd (rd B_marker m) (\<lambda>v.
       if v \<noteq> i then bnd (wr B_marker m i) (\<lambda>B_marker'. Inr (B_marker', counter + 1))
       else Inr (B_marker, counter)))"

definition mult_fill ::
    "int \<Rightarrow> int \<Rightarrow> int list \<times> int \<times> int list \<Rightarrow> error + (int list \<times> int \<times> int list)" where
  "mult_fill i m = (\<lambda>(B_marker, counter, j_C).
     bnd (rd B_marker m) (\<lambda>v.
       if v \<noteq> i then
         bnd (wr B_marker m i) (\<lambda>B_marker'.
         bnd (wr j_C counter m) (\<lambda>j_C'. Inr (B_marker', counter + 1, j_C')))
       else Inr (B_marker, counter, j_C)))"

text \<open>The loops over \<open>j\<close> and \<open>l\<close> of one row \<open>i\<close> of \<open>A\<close>, shared by both walks.\<close>

definition mult_row :: "Table \<Rightarrow> Table \<Rightarrow> int \<Rightarrow> (int \<Rightarrow> 's \<Rightarrow> error + 's) \<Rightarrow> 's \<Rightarrow> error + 's" where
  "mult_row A B i visit st =
     bnd (rd (I A) i) (\<lambda>lo.
     bnd (rd (I A) (i + 1)) (\<lambda>hi.
     for_loop lo hi
       (\<lambda>j st. bnd (rd (J A) j) (\<lambda>k.
                bnd (rd (I B) k) (\<lambda>lo'.
                bnd (rd (I B) (k + 1)) (\<lambda>hi'.
                for_loop lo' hi' (\<lambda>l st. bnd (rd (J B) l) (\<lambda>m. visit m st)) st)))) st))"

definition Mult :: "Table \<Rightarrow> Table \<Rightarrow> Table \<Rightarrow> error + Table" where
  "Mult A B C =
     (let nrows_A = sizeT A; nrows_B = sizeT B in
      bnd (Width A) (\<lambda>ncols_A.
      bnd (Width B) (\<lambda>ncols_B.
      if ncols_A > nrows_B then Inl Fatal
      else
      bnd (for_loop 0 ncols_B (\<lambda>i mk. wr mk i (- 1)) (new_int ncols_B)) (\<lambda>B_marker.
      bnd (for_loop 0 nrows_A (\<lambda>i st. mult_row A B i (mult_count i) st) (B_marker, 0))
        (\<lambda>(B_marker, counter).
      bnd (SetDims C nrows_A counter) (\<lambda>C1.
      bnd (for_loop 0 ncols_B (\<lambda>i mk. wr mk i (- 1)) B_marker) (\<lambda>B_marker.
      bnd (for_loop 0 nrows_A
             (\<lambda>i (B_marker, counter, i_C, j_C).
                bnd (wr i_C i counter) (\<lambda>i_C'.
                bnd (mult_row A B i (mult_fill i) (B_marker, counter, j_C))
                  (\<lambda>(B_marker', counter', j_C'). Inr (B_marker', counter', i_C', j_C'))))
             (B_marker, 0, I C1, J C1)) (\<lambda>(B_marker, counter, i_C, j_C).
      Inr (C1\<lparr>I := i_C, J := j_C\<rparr>)))))))))"

section \<open>DSTable: rows of linked nodes\<close>

text \<open>A node holds a column and an index; the \<^verbatim>\<open>Prev\<close> link makes a row a chain of nodes,
  the newest first, which is a list here. Whether a node comes from \<^verbatim>\<open>NodesMem\<close> or from
  \<^verbatim>\<open>new\<close> cannot be observed.\<close>

record Node =
  Column :: int
  Index :: int

record DSTable =
  Rows :: "Node list list"
  NumRows :: int
  NumEntries :: int

definition DSTable_ctor :: "int \<Rightarrow> error + DSTable" where
  "DSTable_ctor nrows =
     (if nrows < 0 then Inl BadAlloc
      else Inr \<lparr>Rows = replicate (nat nrows) [], NumRows = nrows, NumEntries = 0\<rparr>)"

text \<open>The loop \<^verbatim>\<open>for (n = Rows[r]; n != NULL; n = n->Prev)\<close> of \<^verbatim>\<open>Push_\<close> and \<^verbatim>\<open>Index\<close>.\<close>

fun chain_find :: "Node list \<Rightarrow> int \<Rightarrow> int option" where
  "chain_find [] c = None"
| "chain_find (n # prev) c = (if Column n = c then Some (Index n) else chain_find prev c)"

text \<open>\<^verbatim>\<open>int DSTable::Push_(int r, int c)\<close>\<close>

definition DSTable_Push :: "bool \<Rightarrow> DSTable \<Rightarrow> int \<Rightarrow> int \<Rightarrow> error + (int \<times> DSTable)" where
  "DSTable_Push dbg D r c =
     (if dbg \<and> (r < 0 \<or> r \<ge> NumRows D) then Inl Fatal
      else bnd (rd (Rows D) r) (\<lambda>chain.
        case chain_find chain c of
          Some idx \<Rightarrow> Inr (idx, D)
        | None \<Rightarrow>
            bnd (wr (Rows D) r (\<lparr>Column = c, Index = NumEntries D\<rparr> # chain)) (\<lambda>Rows'.
            Inr (NumEntries D, D\<lparr>Rows := Rows', NumEntries := NumEntries D + 1\<rparr>))))"

text \<open>\<^verbatim>\<open>int DSTable::Index(int r, int c) const\<close>\<close>

definition DSTable_Index :: "bool \<Rightarrow> DSTable \<Rightarrow> int \<Rightarrow> int \<Rightarrow> error + int" where
  "DSTable_Index dbg D r c =
     (if dbg \<and> r < 0 then Inl Fatal
      else if r \<ge> NumRows D then Inr (- 1)
      else bnd (rd (Rows D) r) (\<lambda>chain.
        case chain_find chain c of Some idx \<Rightarrow> Inr idx | None \<Rightarrow> Inr (- 1)))"

text \<open>Modelled from the spec: \<^verbatim>\<open>DSTable::operator()\<close>, the lookup \<^verbatim>\<open>(*v_to_v)(a, b)\<close>, is
  declared in a header that is not among the sources. By sections 3 and 4.3 of the
  specification the table numbers undirected pairs, so the lookup of the pair of \<open>a\<close> and
  \<open>b\<close> is \<^verbatim>\<open>Index\<close> with the smaller number as the row and the larger as the column. The
  table is reached through a pointer (\<open>None\<close> is a null pointer).\<close>

definition DSTable_op :: "bool \<Rightarrow> DSTable option \<Rightarrow> int \<Rightarrow> int \<Rightarrow> error + int" where
  "DSTable_op dbg v_to_v a b =
     (case v_to_v of None \<Rightarrow> Inl NullPointer
      | Some D \<Rightarrow> if a \<le> b then DSTable_Index dbg D a b else DSTable_Index dbg D b a)"

text \<open>The index that a pair table holds for the undirected pair of \<open>a\<close> and \<open>b\<close>, in the
  words of the specification (section 3): the index of the node with the column
  \<open>max a b\<close> in the row \<open>min a b\<close>, and \<open>-1\<close> when the table has no such row or node.\<close>

definition pair_index :: "DSTable \<Rightarrow> int \<Rightarrow> int \<Rightarrow> int" where
  "pair_index D a b =
     (if NumRows D \<le> min a b then - 1
      else case map_of (map (\<lambda>n. (Column n, Index n)) (Rows D ! nat (min a b))) (max a b) of
             Some idx \<Rightarrow> idx | None \<Rightarrow> - 1)"

text \<open>The cells of a row up to and including its first unset cell (the whole row when
  no cell is unset): the part of the row that the scans of \<^verbatim>\<open>operator()\<close> and \<^verbatim>\<open>Push\<close>
  can reach.\<close>

definition upto_unset :: "int list \<Rightarrow> int list" where
  "upto_unset r = take (Suc (length (takeWhile (\<lambda>c. c \<noteq> - 1) r))) r"

text \<open>The shape of a row that fixed-degree allocation and \<^verbatim>\<open>Push\<close> maintain: the set
  columns come first and are distinct, the unset cells follow them.\<close>

definition trailing_unset :: "int list \<Rightarrow> bool" where
  "trailing_unset r \<longleftrightarrow>
     set (dropWhile (\<lambda>c. c \<noteq> - 1) r) \<subseteq> {- 1} \<and> distinct (takeWhile (\<lambda>c. c \<noteq> - 1) r)"

text \<open>The invariant of a fixed-degree table, and the tables that the fixed-degree
  constructor and a sequence of \<^verbatim>\<open>Push\<close> calls build.\<close>

definition fixed_degree_inv :: "Table \<Rightarrow> bool" where
  "fixed_degree_inv T \<longleftrightarrow> wf_table T \<and> (\<forall>i < nat (sizeT T). trailing_unset (row T i))"

inductive fixed_degree :: "Table \<Rightarrow> bool" where
  ctor: "Table_ctor dim connections_per_row = Inr T \<Longrightarrow> fixed_degree T"
| push: "fixed_degree T \<Longrightarrow> Push dbg T i j = Inr (slot, T') \<Longrightarrow> fixed_degree T'"

text \<open>A caller that pushes the columns \<open>cs\<close> into row \<open>i\<close> one after the other.\<close>

definition push_all :: "bool \<Rightarrow> Table \<Rightarrow> int \<Rightarrow> int list \<Rightarrow> error + Table" where
  "push_all dbg T i cs = foldM (\<lambda>c T. bnd (Push dbg T i c) (\<lambda>(slot, T'). Inr T')) cs T"

text \<open>In a row, the unset cells come after the set ones.\<close>

definition unset_trails :: "int list \<Rightarrow> bool" where
  "unset_trails r \<longleftrightarrow> set (dropWhile (\<lambda>c. c \<noteq> - 1) r) \<subseteq> {- 1}"

text \<open>A caller that pushes the pairs \<open>ps\<close> one after the other and collects the indices
  that \<^verbatim>\<open>Push_\<close> returns.\<close>

fun DS_push_all :: "bool \<Rightarrow> DSTable \<Rightarrow> (int \<times> int) list \<Rightarrow> error + (int list \<times> DSTable)" where
  "DS_push_all dbg D [] = Inr ([], D)"
| "DS_push_all dbg D ((r, c) # ps) =
     bnd (DSTable_Push dbg D r c) (\<lambda>(idx, D').
     bnd (DS_push_all dbg D' ps) (\<lambda>(idxs, D''). Inr (idx # idxs, D'')))"

text \<open>The number a pair gets in first-seen order: the number of distinct pairs pushed
  before its first push.\<close>

definition seen_before :: "(int \<times> int) list \<Rightarrow> int \<times> int \<Rightarrow> int" where
  "seen_before ps p = int (card (set (takeWhile (\<lambda>q. q \<noteq> p) ps)))"

text \<open>The state of a table after the pushes \<open>hs\<close>: every pair pushed is stored in its
  row with its first-seen number, and nothing else is stored.\<close>

definition DS_inv :: "DSTable \<Rightarrow> (int \<times> int) list \<Rightarrow> bool" where
  "DS_inv D hs \<longleftrightarrow>
     0 \<le> NumRows D \<and> length (Rows D) = nat (NumRows D) \<and>
     NumEntries D = int (card (set hs)) \<and>
     (\<forall>r c. r < nat (NumRows D) \<longrightarrow>
        chain_find (Rows D ! r) c =
          (if (int r, c) \<in> set hs then Some (seen_before hs (int r, c)) else None))"

text \<open>What a caller's table must satisfy before \<^verbatim>\<open>SetDims\<close> reuses its arrays: either
  nothing is allocated, or \<open>I\<close> has \<open>size + 1\<close> cells and \<open>J\<close> has \<open>I[size]\<close> cells.\<close>

definition alloc_ok :: "Table \<Rightarrow> bool" where
  "alloc_ok T \<longleftrightarrow>
     (if I T = [] then sizeT T < 0 \<and> J T = []
      else 0 \<le> sizeT T \<and> length (I T) = nat (sizeT T) + 1 \<and>
           length (J T) = nat (I T ! nat (sizeT T)))"

text \<open>For the transposition of a column array \<open>Jv\<close>: the number of cells with a column
  below \<open>r\<close> (where row \<open>r\<close> of the transpose starts), and the cell of the transpose
  that the scatter loop writes for cell \<open>k\<close>.\<close>

definition col_start :: "int list \<Rightarrow> int \<Rightarrow> int" where
  "col_start Jv r = int (length (filter (\<lambda>c. c < r) Jv))"

definition col_seen :: "int list \<Rightarrow> nat \<Rightarrow> int \<Rightarrow> int" where
  "col_seen Jv k c = int (length (filter (\<lambda>x. x = c) (take k Jv)))"

definition dest :: "int list \<Rightarrow> nat \<Rightarrow> int" where
  "dest Jv k = col_start Jv (Jv ! k) + col_seen Jv k (Jv ! k)"

text \<open>For the product of two tables: the columns that the walk of \<^verbatim>\<open>Mult\<close> visits for row
  \<open>i\<close> of \<open>A\<close>, in the order of the walk, and the list of their first occurrences.\<close>

definition products :: "Table \<Rightarrow> Table \<Rightarrow> nat \<Rightarrow> int list" where
  "products A B i = concat (map (\<lambda>k. row B (nat k)) (row A i))"

definition add_new :: "int list \<Rightarrow> int \<Rightarrow> int list" where
  "add_new acc m = (if m \<in> set acc then acc else acc @ [m])"

definition first_occs :: "int list \<Rightarrow> int list" where
  "first_occs ms = foldl add_new [] ms"

section \<open>EntitySets: named groups of entities\<close>

text \<open>The four kinds of entity, in the order of the enumeration (\<^verbatim>\<open>VERTEX = 0\<close> ..
  \<^verbatim>\<open>ELEMENT = 3\<close>); the vectors indexed by the kind are functions of it.\<close>

datatype EntityType = VERTEX | EDGE | FACE | ELEMENT

text \<open>Modelled from the spec: the \<^verbatim>\<open>Mesh\<close> class is not among the sources. By section 6 of
  the specification it is consulted for the vertex, edge and element counts, the
  dimension, the edge-vertex, face-vertex and face-edge tables, the index of a vertex
  pair and the index of a face given by three or four vertices. The three table
  pointers are public members (\<open>None\<close> is a null pointer); \<open>GetEdgeVertexTable\<close> and its
  siblings are the tables those calls return; \<open>GetVertexToVertexTable D\<close> is the value of
  the pair table \<open>D\<close> after the call \<^verbatim>\<open>GetVertexToVertexTable(D)\<close> has filled it; \<open>faces_tbl3\<close>
  and \<open>faces_tbl4\<close> are the lookups of the table that \<^verbatim>\<open>GetFacesTable\<close> returns (its class is
  not among the sources either).\<close>

record Mesh =
  GetNV :: int
  GetNEdges :: int
  GetNE :: int
  Dimension :: int
  edge_vertex :: "Table option"
  face_vertex :: "Table option"
  face_edge :: "Table option"
  GetEdgeVertexTable :: Table
  GetFaceVertexTable :: Table
  GetFaceEdgeTable :: Table
  GetVertexToVertexTable :: "DSTable \<Rightarrow> DSTable"
  faces_tbl3 :: "int \<Rightarrow> int \<Rightarrow> int \<Rightarrow> int"
  faces_tbl4 :: "int \<Rightarrow> int \<Rightarrow> int \<Rightarrow> int \<Rightarrow> int"

text \<open>The members of \<^verbatim>\<open>EntitySets\<close> (the trailing underscore of a member name is written
  \<open>_m\<close>). \<open>mesh_m\<close> is the mesh that \<^verbatim>\<open>mesh_\<close> points to.\<close>

record EntitySets =
  mesh_m :: Mesh
  edge_vertex_m :: "Table option"
  face_vertex_m :: "Table option"
  face_edge_m :: "Table option"
  NumOfVertices_m :: int
  NumOfEdges_m :: int
  NumOfElements_m :: int
  sets_m :: "EntityType \<Rightarrow> int list list"
  set_names_m :: "EntityType \<Rightarrow> string list"
  set_index_by_name_m :: "EntityType \<Rightarrow> (string \<rightharpoonup> int)"

text \<open>\<^verbatim>\<open>EntitySets::EntitySets(Mesh & mesh)\<close>\<close>

definition EntitySets_ctor :: "Mesh \<Rightarrow> EntitySets" where
  "EntitySets_ctor mesh =
     \<lparr>mesh_m = mesh, edge_vertex_m = None, face_vertex_m = None, face_edge_m = None,
      NumOfVertices_m = GetNV mesh, NumOfEdges_m = GetNEdges mesh, NumOfElements_m = GetNE mesh,
      sets_m = (\<lambda>t. []), set_names_m = (\<lambda>t. []), set_index_by_name_m = (\<lambda>t. Map.empty)\<rparr>"

text \<open>\<^verbatim>\<open>unsigned int EntitySets::GetNumSets(EntityType t) const\<close>\<close>

definition GetNumSets :: "EntitySets \<Rightarrow> EntityType \<Rightarrow> int" where
  "GetNumSets es t = int (length (sets_m es t))"

text \<open>\<^verbatim>\<open>void EntitySets::CopyMeshTables()\<close>: one table is taken from the mesh, as a copy
  when the mesh holds it and by handing it over (the mesh's pointer is cleared)
  otherwise.\<close>

definition take_edge_vertex :: "Table option \<times> Mesh \<Rightarrow> Table option \<times> Mesh" where
  "take_edge_vertex = (\<lambda>(mine, m).
     case edge_vertex m of Some T \<Rightarrow> (Some T, m)
     | None \<Rightarrow> (Some (GetEdgeVertexTable m), m\<lparr>edge_vertex := None\<rparr>))"

definition take_face_vertex :: "Table option \<times> Mesh \<Rightarrow> Table option \<times> Mesh" where
  "take_face_vertex = (\<lambda>(mine, m).
     case face_vertex m of Some T \<Rightarrow> (Some T, m)
     | None \<Rightarrow> (Some (GetFaceVertexTable m), m\<lparr>face_vertex := None\<rparr>))"

definition take_face_edge :: "Table option \<times> Mesh \<Rightarrow> Table option \<times> Mesh" where
  "take_face_edge = (\<lambda>(mine, m).
     case face_edge m of Some T \<Rightarrow> (Some T, m)
     | None \<Rightarrow> (Some (GetFaceEdgeTable m), m\<lparr>face_edge := None\<rparr>))"

definition CopyMeshTables :: "EntitySets \<Rightarrow> EntitySets" where
  "CopyMeshTables es =
     (let (ev, m1) = (if GetNumSets es EDGE > 0 then take_edge_vertex (edge_vertex_m es, mesh_m es)
                      else (edge_vertex_m es, mesh_m es));
          (fv, m2) = (if GetNumSets es FACE > 0 then take_face_vertex (face_vertex_m es, m1)
                      else (face_vertex_m es, m1));
          (fe, m3) = (if GetNumSets es FACE > 0 then take_face_edge (face_edge_m es, m2)
                      else (face_edge_m es, m2))
      in es\<lparr>mesh_m := m3, edge_vertex_m := ev, face_vertex_m := fv, face_edge_m := fe,
            NumOfVertices_m := GetNV m3, NumOfEdges_m := GetNEdges m3,
            NumOfElements_m := GetNE m3\<rparr>)"

text \<open>\<^verbatim>\<open>std::vector::resize(n)\<close>: the vector is cut to \<open>n\<close> elements or filled up to \<open>n\<close>
  with the value \<open>d\<close> (\<open>0\<close> for \<^verbatim>\<open>int\<close>, an empty vector or string otherwise). A negative
  \<^verbatim>\<open>int\<close> becomes a huge unsigned size and the call throws.\<close>

definition resize :: "'a list \<Rightarrow> int \<Rightarrow> 'a \<Rightarrow> error + 'a list" where
  "resize xs n d =
     (if n < 0 then Inl BadAlloc
      else Inr (take (nat n) xs @ replicate (nat n - length xs) d))"

text \<open>Modelled from the spec: \<^verbatim>\<open>Table::GetRow\<close> is declared in a header that is not among
  the sources. By section 3 of the specification row \<open>i\<close> occupies the cells of \<open>J\<close> from
  \<open>I[i]\<close> on, so \<^verbatim>\<open>GetRow(i)\<close> is the position \<open>I[i]\<close> and \<^verbatim>\<open>GetRow(i)[d]\<close> is \<open>J[I[i] + d]\<close>.
  A null table pointer is the error \<open>NullPointer\<close>.\<close>

definition GetRow :: "Table option \<Rightarrow> int \<Rightarrow> error + (Table \<times> int)" where
  "GetRow tp i = (case tp of None \<Rightarrow> Inl NullPointer
                  | Some T \<Rightarrow> bnd (rd (I T) i) (\<lambda>p. Inr (T, p)))"

definition at_row :: "Table \<times> int \<Rightarrow> int \<Rightarrow> error + int" where
  "at_row = (\<lambda>(T, p) d. rd (J T) (p + d))"

text \<open>The loop over the groups of a kind: \<^verbatim>\<open>for (s = 0; s < GetNumSets(t); s++)\<close> with a
  body that rewrites the group \<open>s\<close>.\<close>

definition each_set :: "(int list \<Rightarrow> error + int list) \<Rightarrow> int list list \<Rightarrow> error + int list list" where
  "each_set f sets =
     for_loop 0 (int (length sets))
       (\<lambda>s sets. bnd (rd sets s) (\<lambda>grp. bnd (f grp) (\<lambda>grp'. wr sets s grp'))) sets"

text \<open>The edge groups of \<^verbatim>\<open>QuadUniformRefinement\<close> and \<^verbatim>\<open>HexUniformRefinement\<close> (the same
  code in both): one group. \<open>v_to_v\<close> is the pointer to the pair table, \<open>ev\<close> the pointer
  \<^verbatim>\<open>edge_vertex_\<close>.\<close>

definition refine_edge_group ::
    "bool \<Rightarrow> DSTable option \<Rightarrow> Table option \<Rightarrow> int \<Rightarrow> int list \<Rightarrow> error + int list" where
  "refine_edge_group dbg v_to_v ev oedge grp0 =
     (let n = int (length grp0) in
      bnd (resize grp0 (2 * n) 0) (\<lambda>grp1.
      for_loop 0 n
        (\<lambda>i grp.
           bnd (rd grp i) (\<lambda>old_edge.
           bnd (GetRow ev old_edge) (\<lambda>v.
           bnd (at_row v 0) (\<lambda>va.
           bnd (DSTable_op dbg v_to_v va (wrap (oedge + old_edge))) (\<lambda>x0.
           bnd (wr grp i x0) (\<lambda>grp'.
           bnd (at_row v 1) (\<lambda>vb.
           bnd (DSTable_op dbg v_to_v vb (wrap (oedge + old_edge))) (\<lambda>x1.
           wr grp' (i + n) x1)))))))) grp1))"

text \<open>The element groups of \<^verbatim>\<open>QuadUniformRefinement\<close>: one group.\<close>

definition quad_element_group :: "int \<Rightarrow> int list \<Rightarrow> error + int list" where
  "quad_element_group NumOfElements grp0 =
     (let n = int (length grp0) in
      bnd (resize grp0 (4 * n) 0) (\<lambda>grp1.
      for_loop 0 n
        (\<lambda>i grp.
           bnd (rd grp i) (\<lambda>e.
           let j = wrap (NumOfElements + wrap (3 * e)) in
           bnd (wr grp (n + 3 * i + 0) (wrap (j + 0))) (\<lambda>grp.
           bnd (wr grp (n + 3 * i + 1) (wrap (j + 1))) (\<lambda>grp.
           wr grp (n + 3 * i + 2) (wrap (j + 2)))))) grp1))"

text \<open>The element groups of \<^verbatim>\<open>HexUniformRefinement\<close>: one group.\<close>

definition hex_element_group :: "int \<Rightarrow> int list \<Rightarrow> error + int list" where
  "hex_element_group NumOfElements grp0 =
     (let n = int (length grp0) in
      bnd (resize grp0 (8 * n) 0) (\<lambda>grp1.
      for_loop 0 n
        (\<lambda>i grp.
           bnd (rd grp i) (\<lambda>e.
           let j = wrap (NumOfElements + wrap (7 * e)) in
           bnd (wr grp (n + 7 * i + 0) (wrap (j + 0))) (\<lambda>grp.
           bnd (wr grp (n + 7 * i + 1) (wrap (j + 1))) (\<lambda>grp.
           bnd (wr grp (n + 7 * i + 2) (wrap (j + 2))) (\<lambda>grp.
           bnd (wr grp (n + 7 * i + 3) (wrap (j + 3))) (\<lambda>grp.
           bnd (wr grp (n + 7 * i + 4) (wrap (j + 4))) (\<lambda>grp.
           bnd (wr grp (n + 7 * i + 5) (wrap (j + 5))) (\<lambda>grp.
           wr grp (n + 7 * i + 6) (wrap (j + 6)))))))))) grp1))"

text \<open>The face groups of \<^verbatim>\<open>HexUniformRefinement\<close>. \<open>search_l\<close> is the loop over \<open>l\<close> (with
  its \<^verbatim>\<open>break\<close>), which returns the last value of \<^verbatim>\<open>new_face\<close>; \<open>search_k\<close> is the loop
  over \<open>k\<close>, which returns the face found, if any.\<close>

fun search_l :: "Mesh \<Rightarrow> Table \<times> int \<Rightarrow> int \<Rightarrow> int \<Rightarrow> int \<Rightarrow> int \<Rightarrow> int \<Rightarrow> int \<Rightarrow> nat \<Rightarrow> int
    \<Rightarrow> error + int" where
  "search_l mesh e oedge va vb vd k l 0 new_face = Inr new_face"
| "search_l mesh e oedge va vb vd k l (Suc n) new_face =
     bnd (at_row e ((k + l) mod 4)) (\<lambda>el.
       let vc = wrap (oedge + el); new_face' = faces_tbl4 mesh va vb vc vd in
       if new_face' \<ge> 0 then Inr new_face'
       else search_l mesh e oedge va vb vd k (l + 1) n new_face')"

fun search_k :: "Mesh \<Rightarrow> Table \<times> int \<Rightarrow> int \<Rightarrow> int \<Rightarrow> int \<Rightarrow> int \<Rightarrow> nat \<Rightarrow> error + int option" where
  "search_k mesh e oedge va vd k 0 = Inr None"
| "search_k mesh e oedge va vd k (Suc n) =
     bnd (at_row e k) (\<lambda>ek.
       let vb = wrap (oedge + ek) in
       bnd (search_l mesh e oedge va vb vd k 1 3 (- 1)) (\<lambda>new_face.
       if new_face \<ge> 0 then Inr (Some new_face)
       else search_k mesh e oedge va vd (k + 1) n))"

definition refine_face_group ::
    "Mesh \<Rightarrow> Table option \<Rightarrow> Table option \<Rightarrow> int \<Rightarrow> int \<Rightarrow> int list \<Rightarrow> error + int list" where
  "refine_face_group mesh fv fe oedge oface grp0 =
     (let n = int (length grp0) in
      bnd (resize grp0 (4 * n) 0) (\<lambda>grp1.
      for_loop 0 n
        (\<lambda>i grp.
           bnd (rd grp i) (\<lambda>old_face.
           bnd (GetRow fv old_face) (\<lambda>v.
           bnd (GetRow fe old_face) (\<lambda>e.
           for_loop 0 4
             (\<lambda>j grp.
                bnd (at_row v j) (\<lambda>va.
                let vd = wrap (oface + old_face) in
                bnd (search_k mesh e oedge va vd 0 4) (\<lambda>found.
                case found of
                  None \<Rightarrow> Inr grp
                | Some new_face \<Rightarrow>
                    if j = 0 then wr grp i new_face
                    else wr grp (n + 3 * i + j - 1) new_face))) grp)))) grp1))"

text \<open>\<^verbatim>\<open>void EntitySets::QuadUniformRefinement()\<close>\<close>

definition QuadUniformRefinement :: "bool \<Rightarrow> EntitySets \<Rightarrow> error + EntitySets" where
  "QuadUniformRefinement dbg es =
     bnd (if GetNumSets es EDGE > 0 then
            bnd (DSTable_ctor (GetNV (mesh_m es))) (\<lambda>D.
            (let v_to_v = Some (GetVertexToVertexTable (mesh_m es) D);
                 oedge = NumOfVertices_m es in
             bnd (each_set (refine_edge_group dbg v_to_v (edge_vertex_m es) oedge)
                    (sets_m es EDGE)) (\<lambda>edge_sets.
             Inr (es\<lparr>sets_m := (sets_m es)(EDGE := edge_sets)\<rparr>))))
          else Inr es) (\<lambda>es1.
     bnd (each_set (quad_element_group (NumOfElements_m es1)) (sets_m es1 ELEMENT)) (\<lambda>element_sets.
     Inr (CopyMeshTables (es1\<lparr>sets_m := (sets_m es1)(ELEMENT := element_sets)\<rparr>))))"

text \<open>\<^verbatim>\<open>void EntitySets::HexUniformRefinement()\<close>\<close>

definition HexUniformRefinement :: "bool \<Rightarrow> EntitySets \<Rightarrow> error + EntitySets" where
  "HexUniformRefinement dbg es =
     bnd (if GetNumSets es EDGE > 0 \<or> GetNumSets es FACE > 0
          then bnd (DSTable_ctor (GetNV (mesh_m es))) (\<lambda>D.
                 Inr (Some (GetVertexToVertexTable (mesh_m es) D)))
          else Inr None) (\<lambda>v_to_v.
     bnd (if GetNumSets es EDGE > 0 then
            (let oedge = NumOfVertices_m es in
             bnd (each_set (refine_edge_group dbg v_to_v (edge_vertex_m es) oedge)
                    (sets_m es EDGE)) (\<lambda>edge_sets.
             Inr (es\<lparr>sets_m := (sets_m es)(EDGE := edge_sets)\<rparr>)))
          else Inr es) (\<lambda>es1.
     bnd (if GetNumSets es1 FACE > 0 then
            (let oedge = NumOfVertices_m es1; oface = wrap (oedge + NumOfEdges_m es1) in
             bnd (each_set (refine_face_group (mesh_m es1) (face_vertex_m es1) (face_edge_m es1)
                              oedge oface) (sets_m es1 FACE)) (\<lambda>face_sets.
             Inr (es1\<lparr>sets_m := (sets_m es1)(FACE := face_sets)\<rparr>)))
          else Inr es1) (\<lambda>es2.
     bnd (each_set (hex_element_group (NumOfElements_m es2)) (sets_m es2 ELEMENT)) (\<lambda>element_sets.
     Inr (CopyMeshTables (es2\<lparr>sets_m := (sets_m es2)(ELEMENT := element_sets)\<rparr>))))))"

text \<open>An edge of a group that the edge-vertex table knows: a row of the table with two
  endpoints.\<close>

definition valid_edge :: "Table \<Rightarrow> int \<Rightarrow> bool" where
  "valid_edge T e \<longleftrightarrow> 0 \<le> e \<and> e < sizeT T \<and> 2 \<le> length (row T (nat e))"

text \<open>A mesh and an instance for the examples. The mesh is one quadrilateral with the
  vertices \<open>0\<close> .. \<open>3\<close> and the edges \<open>(0,1)\<close>, \<open>(1,2)\<close>, \<open>(2,3)\<close>, \<open>(0,3)\<close>, after its
  refinement: edge \<open>e\<close> has the new vertex \<open>4 + e\<close>, the centre is vertex \<open>8\<close>, and the pair
  table numbers the twelve new edges \<open>(0,4)\<close>, \<open>(1,4)\<close>, \<open>(1,5)\<close>, \<open>(2,5)\<close>, \<open>(2,6)\<close>, \<open>(3,6)\<close>,
  \<open>(0,7)\<close>, \<open>(3,7)\<close>, \<open>(4,8)\<close>, \<open>(5,8)\<close>, \<open>(6,8)\<close>, \<open>(7,8)\<close> in this order. The instance still
  holds the edge-vertex table and the counts from before the refinement (four vertices,
  four edges, ten elements on record).\<close>

definition example_mesh :: Mesh where
  "example_mesh =
     \<lparr>GetNV = 9, GetNEdges = 12, GetNE = 4, Dimension = 2,
      edge_vertex = None, face_vertex = None, face_edge = None,
      GetEdgeVertexTable =
        \<lparr>sizeT = 12, I = [0, 2, 4, 6, 8, 10, 12, 14, 16, 18, 20, 22, 24],
         J = [0, 4, 1, 4, 1, 5, 2, 5, 2, 6, 3, 6, 0, 7, 3, 7, 4, 8, 5, 8, 6, 8, 7, 8]\<rparr>,
      GetFaceVertexTable = \<lparr>sizeT = 0, I = [0], J = []\<rparr>,
      GetFaceEdgeTable = \<lparr>sizeT = 0, I = [0], J = []\<rparr>,
      GetVertexToVertexTable = (\<lambda>D. D\<lparr>Rows :=
         [[\<lparr>Column = 7, Index = 6\<rparr>, \<lparr>Column = 4, Index = 0\<rparr>],
          [\<lparr>Column = 5, Index = 2\<rparr>, \<lparr>Column = 4, Index = 1\<rparr>],
          [\<lparr>Column = 6, Index = 4\<rparr>, \<lparr>Column = 5, Index = 3\<rparr>],
          [\<lparr>Column = 7, Index = 7\<rparr>, \<lparr>Column = 6, Index = 5\<rparr>],
          [\<lparr>Column = 8, Index = 8\<rparr>], [\<lparr>Column = 8, Index = 9\<rparr>],
          [\<lparr>Column = 8, Index = 10\<rparr>], [\<lparr>Column = 8, Index = 11\<rparr>], []],
         NumEntries := 12\<rparr>),
      faces_tbl3 = (\<lambda>a b c. - 1), faces_tbl4 = (\<lambda>a b c d. - 1)\<rparr>"

definition example_sets :: EntitySets where
  "example_sets =
     \<lparr>mesh_m = example_mesh,
      edge_vertex_m = Some \<lparr>sizeT = 4, I = [0, 2, 4, 6, 8], J = [0, 1, 1, 2, 2, 3, 0, 3]\<rparr>,
      face_vertex_m = None, face_edge_m = None,
      NumOfVertices_m = 4, NumOfEdges_m = 4, NumOfElements_m = 10,
      sets_m = (\<lambda>t. [])(EDGE := [[0]], ELEMENT := [[5]]),
      set_names_m = (\<lambda>t. [])(EDGE := [''bottom''], ELEMENT := [''block'']),
      set_index_by_name_m = (\<lambda>t. Map.empty)(EDGE := [''bottom'' \<mapsto> 0], ELEMENT := [''block'' \<mapsto> 0])\<rparr>"

section \<open>Input streams\<close>

text \<open>\<^verbatim>\<open>EntitySets::Load\<close> reads a \<^verbatim>\<open>std::istream\<close>. The stream is the text that is still to
  be read and two state bits (\<open>failbit\<close> stands for \<^verbatim>\<open>failbit\<close> and \<^verbatim>\<open>badbit\<close>: \<^verbatim>\<open>!input\<close> tests
  both). The operations follow the C++11 standard for the classic locale and decimal
  numbers: a sentry sets \<^verbatim>\<open>failbit\<close> on a stream that is not good and, for formatted input,
  skips white space and sets \<^verbatim>\<open>eofbit\<close> and \<^verbatim>\<open>failbit\<close> when nothing follows; an extraction
  whose sentry fails leaves its target as it was; an extraction of a number that finds no
  digits stores \<open>0\<close> and sets \<^verbatim>\<open>failbit\<close>, one that is out of the range of a 32-bit \<^verbatim>\<open>int\<close>
  stores the nearest bound and sets \<^verbatim>\<open>failbit\<close>; reaching the end of the text sets
  \<^verbatim>\<open>eofbit\<close>.\<close>

record istream =
  buf :: string
  eofbit :: bool
  failbit :: bool

definition good :: "istream \<Rightarrow> bool" where
  "good s \<longleftrightarrow> \<not> eofbit s \<and> \<not> failbit s"

definition isspace :: "char \<Rightarrow> bool" where
  "isspace c \<longleftrightarrow> c \<in> set [CHR '' '', CHR 0x09, CHR 0x0A, CHR 0x0B, CHR 0x0C, CHR 0x0D]"

definition isdigit :: "char \<Rightarrow> bool" where
  "isdigit c \<longleftrightarrow> c \<in> set ''0123456789''"

definition sentry :: "bool \<Rightarrow> istream \<Rightarrow> bool \<times> istream" where
  "sentry noskipws s =
     (if \<not> good s then (False, s\<lparr>failbit := True\<rparr>)
      else if noskipws then (True, s)
      else (let r = dropWhile isspace (buf s) in
            if r = [] then (False, s\<lparr>buf := [], eofbit := True, failbit := True\<rparr>)
            else (True, s\<lparr>buf := r\<rparr>)))"

text \<open>\<^verbatim>\<open>is >> std::ws\<close>\<close>

definition ws :: "istream \<Rightarrow> istream" where
  "ws s =
     (let (ok, s') = sentry True s in
      if \<not> ok then s'
      else (let r = dropWhile isspace (buf s') in s'\<lparr>buf := r, eofbit := (r = [])\<rparr>))"

text \<open>\<^verbatim>\<open>std::getline(is, str)\<close>: the new value of \<open>str\<close> and the stream.\<close>

definition getline :: "istream \<Rightarrow> string \<Rightarrow> string \<times> istream" where
  "getline s str =
     (let (ok, s') = sentry True s in
      if \<not> ok then (str, s')
      else (let line = takeWhile (\<lambda>c. c \<noteq> CHR 0x0A) (buf s');
                rest = dropWhile (\<lambda>c. c \<noteq> CHR 0x0A) (buf s')
            in if rest = [] then (line, s'\<lparr>buf := [], eofbit := True, failbit := (line = [])\<rparr>)
               else (line, s'\<lparr>buf := tl rest\<rparr>)))"

text \<open>\<^verbatim>\<open>is >> str\<close> for a \<^verbatim>\<open>std::string\<close>\<close>

definition read_string :: "istream \<Rightarrow> string \<Rightarrow> string \<times> istream" where
  "read_string s str =
     (let (ok, s') = sentry False s in
      if \<not> ok then (str, s')
      else (let tok = takeWhile (\<lambda>c. \<not> isspace c) (buf s');
                rest = dropWhile (\<lambda>c. \<not> isspace c) (buf s')
            in (tok, s'\<lparr>buf := rest, eofbit := (rest = []), failbit := (tok = [])\<rparr>)))"

text \<open>\<^verbatim>\<open>is >> n\<close> for an \<^verbatim>\<open>int\<close>: the value stored, if one is stored, and the stream.\<close>

definition digits_val :: "string \<Rightarrow> int" where
  "digits_val ds = foldl (\<lambda>a c. 10 * a + (int (of_char c) - 48)) 0 ds"

definition extract_int :: "istream \<Rightarrow> int option \<times> istream" where
  "extract_int s =
     (let (ok, s') = sentry False s in
      if \<not> ok then (None, s')
      else (let b = buf s';
                sgn = (b \<noteq> [] \<and> hd b \<in> set ''+-'');
                b1 = (if sgn then tl b else b);
                ds = takeWhile isdigit b1;
                rest = dropWhile isdigit b1;
                v = (if sgn \<and> hd b = CHR ''-'' then - digits_val ds else digits_val ds);
                s'' = s'\<lparr>buf := rest, eofbit := (rest = [])\<rparr>
            in if ds = [] then (Some 0, s''\<lparr>failbit := True\<rparr>)
               else if v > 2147483647 then (Some 2147483647, s''\<lparr>failbit := True\<rparr>)
               else if v < - 2147483648 then (Some (- 2147483648), s''\<lparr>failbit := True\<rparr>)
               else (Some v, s'')))"

text \<open>Reading into an initialised variable, and into one that may still be indeterminate
  (\<open>None\<close>); the use of an indeterminate value is the error \<open>Indeterminate\<close>.\<close>

definition read_int :: "istream \<Rightarrow> int \<Rightarrow> int \<times> istream" where
  "read_int s old = (case extract_int s of (None, s') \<Rightarrow> (old, s') | (Some v, s') \<Rightarrow> (v, s'))"

definition read_var :: "istream \<Rightarrow> int option \<Rightarrow> int option \<times> istream" where
  "read_var s old = (case extract_int s of (None, s') \<Rightarrow> (old, s') | (Some v, s') \<Rightarrow> (Some v, s'))"

definition need :: "int option \<Rightarrow> error + int" where
  "need x = (case x of None \<Rightarrow> Inl Indeterminate | Some v \<Rightarrow> Inr v)"

section \<open>Loading the entity sets\<close>

text \<open>The local variables of \<^verbatim>\<open>LoadEntitySets\<close> that live across the iterations of its loops
  (written with the suffix \<open>_l\<close>); \<^verbatim>\<open>g\<close> and \<^verbatim>\<open>v0\<close> .. \<^verbatim>\<open>v3\<close> are declared without a value.\<close>

record locals =
  ident_l :: string
  NumEntities_l :: int
  g_l :: "int option"
  v0_l :: "int option"
  v1_l :: "int option"
  v2_l :: "int option"
  v3_l :: "int option"

text \<open>\<^verbatim>\<open>sets_[t][i][j] = v\<close>\<close>

definition set_entity :: "EntitySets \<Rightarrow> EntityType \<Rightarrow> int \<Rightarrow> int \<Rightarrow> int \<Rightarrow> error + EntitySets" where
  "set_entity es t i j v =
     bnd (rd (sets_m es t) i) (\<lambda>grp.
     bnd (wr grp j v) (\<lambda>grp'.
     bnd (wr (sets_m es t) i grp') (\<lambda>sets'.
     Inr (es\<lparr>sets_m := (sets_m es)(t := sets')\<rparr>))))"

text \<open>The body of the loop over the entities \<open>j\<close> of the group \<open>i\<close>: the \<^verbatim>\<open>switch\<close> on the kind,
  then \<^verbatim>\<open>input >> ws\<close>. The state is the instance, the stream and the locals.\<close>

definition load_entity ::
  "bool \<Rightarrow> DSTable option \<Rightarrow> EntityType \<Rightarrow> int \<Rightarrow> int \<Rightarrow> EntitySets \<times> istream \<times> locals \<Rightarrow>
     error + EntitySets \<times> istream \<times> locals" where
  "load_entity dbg v_to_v t i j = (\<lambda>(es, s, L).
     bnd (case t of
            EDGE \<Rightarrow>
              (let (a, s1) = read_var s (v0_l L); (b, s2) = read_var s1 (v1_l L);
                   L' = L\<lparr>v0_l := a, v1_l := b\<rparr> in
               bnd (need a) (\<lambda>a'. bnd (need b) (\<lambda>b'.
               bnd (DSTable_op dbg v_to_v a' b') (\<lambda>edge.
               bnd (set_entity es t i j edge) (\<lambda>es'. Inr (es', s2, L'))))))
          | FACE \<Rightarrow>
              (let (gg, s0) = read_var s (g_l L) in
               bnd (need gg) (\<lambda>g'.
               if g' = 2 then
                 (let (a, s1) = read_var s0 (v0_l L); (b, s2) = read_var s1 (v1_l L);
                      (c, s3) = read_var s2 (v2_l L);
                      L' = L\<lparr>g_l := gg, v0_l := a, v1_l := b, v2_l := c\<rparr> in
                  bnd (need a) (\<lambda>a'. bnd (need b) (\<lambda>b'. bnd (need c) (\<lambda>c'.
                  bnd (set_entity es t i j (faces_tbl3 (mesh_m es) a' b' c')) (\<lambda>es'.
                  Inr (es', s3, L'))))))
               else if g' = 3 then
                 (let (a, s1) = read_var s0 (v0_l L); (b, s2) = read_var s1 (v1_l L);
                      (c, s3) = read_var s2 (v2_l L); (d, s4) = read_var s3 (v3_l L);
                      L' = L\<lparr>g_l := gg, v0_l := a, v1_l := b, v2_l := c, v3_l := d\<rparr> in
                  bnd (need a) (\<lambda>a'. bnd (need b) (\<lambda>b'. bnd (need c) (\<lambda>c'. bnd (need d) (\<lambda>d'.
                  bnd (set_entity es t i j (faces_tbl4 (mesh_m es) a' b' c' d')) (\<lambda>es'.
                  Inr (es', s4, L')))))))
               else Inl Fatal))
          | _ \<Rightarrow>
              bnd (rd (sets_m es t) i) (\<lambda>grp.
              bnd (rd grp j) (\<lambda>old.
              (let (v, s1) = read_int s old in
               bnd (set_entity es t i j v) (\<lambda>es'. Inr (es', s1, L))))))
       (\<lambda>(es', s', L'). Inr (es', ws s', L')))"

text \<open>The body of the loop over the groups \<open>i\<close>. The helpers \<^verbatim>\<open>filter_dos\<close> and
  \<^verbatim>\<open>skip_comment_lines\<close> are defined in a header that is not among the sources and that the
  specification does not describe: they are parameters, and every statement below holds
  for whatever they do.\<close>

definition load_set ::
  "bool \<Rightarrow> (string \<Rightarrow> string) \<Rightarrow> DSTable option \<Rightarrow> EntityType \<Rightarrow> int \<Rightarrow>
     EntitySets \<times> istream \<times> locals \<Rightarrow> error + EntitySets \<times> istream \<times> locals" where
  "load_set dbg filter_dos v_to_v t i = (\<lambda>(es, s, L).
     (let (line, s1) = getline s (ident_l L); idt = filter_dos line in
      bnd (wr (set_names_m es t) i idt) (\<lambda>names.
      (let es1 = es\<lparr>set_names_m := (set_names_m es)(t := names),
                     set_index_by_name_m :=
                       (set_index_by_name_m es)(t := (set_index_by_name_m es t)(idt \<mapsto> i))\<rparr>;
           (ne, s2) = read_int s1 (NumEntities_l L) in
       bnd (rd (sets_m es1 t) i) (\<lambda>grp.
       bnd (resize grp ne 0) (\<lambda>grp'.
       bnd (wr (sets_m es1 t) i grp') (\<lambda>sets'.
       for_loop 0 ne (load_entity dbg v_to_v t i)
         (es1\<lparr>sets_m := (sets_m es1)(t := sets')\<rparr>, s2,
          L\<lparr>ident_l := idt, NumEntities_l := ne\<rparr>))))))))"

text \<open>\<^verbatim>\<open>void EntitySets::LoadEntitySets(istream &input, EntityType t, const string & header)\<close>\<close>

definition LoadEntitySets ::
  "bool \<Rightarrow> (string \<Rightarrow> string) \<Rightarrow> (istream \<Rightarrow> char \<Rightarrow> istream) \<Rightarrow> EntitySets \<times> istream \<Rightarrow>
     EntityType \<Rightarrow> string \<Rightarrow> error + EntitySets \<times> istream" where
  "LoadEntitySets dbg filter_dos skip_comment_lines = (\<lambda>(es, input) t header.
     (let s1 = skip_comment_lines input CHR ''#'';
          (idt, s2) = read_string s1 [];
          s3 = ws s2 in
      if idt \<noteq> header then Inl Fatal
      else
        (let (NumSets, s4) = read_int s3 (- 1); s5 = ws s4 in
         bnd (resize (sets_m es t) NumSets []) (\<lambda>sets'.
         bnd (resize (set_names_m es t) NumSets []) (\<lambda>names'.
         (let es1 = es\<lparr>sets_m := (sets_m es)(t := sets'),
                        set_names_m := (set_names_m es)(t := names')\<rparr> in
          bnd (if NumSets > 0 \<and> t = EDGE
               then bnd (DSTable_ctor (NumOfVertices_m es1)) (\<lambda>D.
                      Inr (Some (GetVertexToVertexTable (mesh_m es1) D)))
               else Inr None) (\<lambda>v_to_v.
          bnd (for_loop 0 NumSets (load_set dbg filter_dos v_to_v t)
                 (es1, s5, \<lparr>ident_l = idt, NumEntities_l = - 1, g_l = None, v0_l = None,
                            v1_l = None, v2_l = None, v3_l = None\<rparr>)) (\<lambda>(es', s', L).
          Inr (es', s')))))))))"

text \<open>\<^verbatim>\<open>void EntitySets::Load(istream &input)\<close>, in three parts: the first line, the
  dimension, the sections.\<close>

definition Load_header :: "(string \<Rightarrow> string) \<Rightarrow> istream \<Rightarrow> string \<times> istream" where
  "Load_header filter_dos input =
     (let (file_type, s) = getline (ws input) [] in (filter_dos file_type, s))"

definition Load_dimension :: "(istream \<Rightarrow> char \<Rightarrow> istream) \<Rightarrow> istream \<Rightarrow> error + int \<times> istream" where
  "Load_dimension skip_comment_lines input =
     (let s1 = skip_comment_lines input CHR ''#'';
          (idt, s2) = read_string s1 [];
          s3 = ws s2 in
      if idt \<noteq> ''dimension'' then Inl Fatal
      else (let (Dim, s4) = read_int s3 (- 1) in Inr (Dim, ws s4)))"

definition Load ::
  "bool \<Rightarrow> (string \<Rightarrow> string) \<Rightarrow> (istream \<Rightarrow> char \<Rightarrow> istream) \<Rightarrow> EntitySets \<Rightarrow> istream \<Rightarrow>
     error + EntitySets \<times> istream" where
  "Load dbg filter_dos skip_comment_lines es input =
     (if failbit input then Inl Fatal
      else
        (let (file_type, s) = Load_header filter_dos input in
         if file_type = ''MFEM sets v1.0'' then
           bnd (Load_dimension skip_comment_lines s) (\<lambda>(Dim, s0).
           bnd (LoadEntitySets dbg filter_dos skip_comment_lines (es, s0) VERTEX ''vertex_sets'') (\<lambda>st1.
           bnd (if Dim > 1
                then LoadEntitySets dbg filter_dos skip_comment_lines st1 EDGE ''edge_sets''
                else Inr st1) (\<lambda>st2.
           bnd (if Dim > 2
                then LoadEntitySets dbg filter_dos skip_comment_lines st2 FACE ''face_sets''
                else Inr st2) (\<lambda>st3.
           bnd (LoadEntitySets dbg filter_dos skip_comment_lines st3 ELEMENT ''element_sets'')
             (\<lambda>(es', s'). Inr (CopyMeshTables es', s'))))))
         else Inr (es, s)))"

text \<open>The sections of a file of dimension \<open>D\<close> as the specification lists them: the vertex
  and the element sets always, the edge sets if and only if \<open>D > 1\<close>, the face sets if and
  only if \<open>D > 2\<close>.\<close>

definition sections :: "int \<Rightarrow> (EntityType \<times> string) list" where
  "sections D =
     [(VERTEX, ''vertex_sets'')] @ (if D > 1 then [(EDGE, ''edge_sets'')] else []) @
     (if D > 2 then [(FACE, ''face_sets'')] else []) @ [(ELEMENT, ''element_sets'')]"

text \<open>An example file of dimension 1 that nevertheless carries an edge section.\<close>

definition example_file :: string where
  "example_file =
     ''MFEM sets v1.0\<newline>\<newline>dimension\<newline>1\<newline>\<newline>vertex_sets\<newline>1\<newline>\<newline>ends\<newline>2\<newline>0 3\<newline>\<newline>'' @
     ''edge_sets\<newline>0\<newline>\<newline>element_sets\<newline>0\<newline>''"

section \<open>Basic facts\<close>

lemma bnd_Inr [simp]: "bnd (Inr x) f = f x"
  by (simp add: bnd_def)

lemma bnd_Inl [simp]: "bnd (Inl e) f = Inl e"
  by (simp add: bnd_def)

lemma rd_ok: "0 \<le> i \<Longrightarrow> i < int (length a) \<Longrightarrow> rd a i = Inr (a ! nat i)"
  by (simp add: rd_def)

lemma wr_ok: "0 \<le> i \<Longrightarrow> i < int (length a) \<Longrightarrow> wr a i v = Inr (a[nat i := v])"
  by (simp add: wr_def)

text \<open>Loop invariants: a body that keeps \<open>P\<close> and never fails gives a loop that
  returns a state with \<open>P\<close> at the final index.\<close>

lemma foldM_inv:
  assumes "P 0 s"
    and "\<And>n s. n < length xs \<Longrightarrow> P n s \<Longrightarrow> \<exists>s'. f (xs ! n) s = Inr s' \<and> P (Suc n) s'"
  shows "\<exists>s'. foldM f xs s = Inr s' \<and> P (length xs) s'"
  using assms
proof (induction xs arbitrary: s P)
  case Nil
  then show ?case by simp
next
  case (Cons x xs)
  from Cons.prems(2) [of 0 s] Cons.prems(1)
  obtain s1 where s1: "f x s = Inr s1" "P (Suc 0) s1" by auto
  have "\<exists>s'. foldM f xs s1 = Inr s' \<and> P (Suc (length xs)) s'"
  proof (rule Cons.IH [where P = "\<lambda>n. P (Suc n)"])
    show "P (Suc 0) s1" by (rule s1)
  next
    fix n s assume "n < length xs" "P (Suc n) s"
    with Cons.prems(2) [of "Suc n" s] show "\<exists>s'. f (xs ! n) s = Inr s' \<and> P (Suc (Suc n)) s'"
      by simp
  qed
  with s1 show ?case by simp
qed

lemma for_loop_inv:
  assumes "lo \<le> hi" "P lo s"
    and "\<And>k s. lo \<le> k \<Longrightarrow> k < hi \<Longrightarrow> P k s \<Longrightarrow> \<exists>s'. body k s = Inr s' \<and> P (k + 1) s'"
  shows "\<exists>s'. for_loop lo hi body s = Inr s' \<and> P hi s'"
proof -
  let ?xs = "map (\<lambda>d. lo + int d) [0..<nat (hi - lo)]"
  have "\<exists>s'. foldM body ?xs s = Inr s' \<and> P (lo + int (length ?xs)) s'"
  proof (rule foldM_inv [where P = "\<lambda>n. P (lo + int n)"])
    show "P (lo + int 0) s" using assms(2) by simp
  next
    fix n s assume n: "n < length ?xs" and p: "P (lo + int n) s"
    have "\<exists>s'. body (lo + int n) s = Inr s' \<and> P (lo + int n + 1) s'"
      using n p by (intro assms(3)) simp_all
    then show "\<exists>s'. body (?xs ! n) s = Inr s' \<and> P (lo + int (Suc n)) s'"
      using n by (simp add: ac_simps)
  qed
  then show ?thesis using assms(1) by (simp add: for_loop_def)
qed

lemma for_loop_empty: "hi \<le> lo \<Longrightarrow> for_loop lo hi body s = Inr s"
  by (simp add: for_loop_def)

lemma fill_loop:
  assumes "0 \<le> lo" "lo \<le> hi" "hi \<le> int (length a)"
  shows "\<exists>b. for_loop lo hi (\<lambda>j Jw. wr Jw j v) a = Inr b \<and> length b = length a \<and>
           (\<forall>q < length a. b ! q = (if lo \<le> int q \<and> int q < hi then v else a ! q))"
proof -
  let ?P = "\<lambda>k b. length b = length a \<and>
           (\<forall>q < length a. b ! q = (if lo \<le> int q \<and> int q < k then v else a ! q))"
  have "\<exists>s'. for_loop lo hi (\<lambda>j Jw. wr Jw j v) a = Inr s' \<and> ?P hi s'"
  proof (rule for_loop_inv [where P = ?P])
    show "lo \<le> hi" by fact
    show "?P lo a" by auto
  next
    fix k b assume k: "lo \<le> k" "k < hi" and b: "?P k b"
    have kk: "nat k < length a" using k assms by simp
    have "?P (k + 1) (b[nat k := v])"
    proof (intro conjI allI impI)
      show "length (b[nat k := v]) = length a" using b by simp
    next
      fix q assume q: "q < length a"
      show "b[nat k := v] ! q = (if lo \<le> int q \<and> int q < k + 1 then v else a ! q)"
      proof (cases "q = nat k")
        case True
        then show ?thesis using k assms(1) q b by simp
      next
        case False
        then have "int q \<noteq> k" using k assms(1) by auto
        then have "int q < k + 1 \<longleftrightarrow> int q < k" by linarith
        then show ?thesis using b q False by simp
      qed
    qed
    then show "\<exists>s'. wr b k v = Inr s' \<and> ?P (k + 1) s'"
      using k assms b by (simp add: wr_def)
  qed
  then show ?thesis by simp
qed

section \<open>The lookup operator of Table\<close>

lemma seg_Cons:
  assumes "take (Suc n) (drop k xs) = c # cs"
  shows "k < length xs \<and> xs ! k = c \<and> take n (drop (Suc k) xs) = cs"
proof -
  have k: "k < length xs" using assms by (cases "k < length xs") auto
  then have "drop k xs = xs ! k # drop (Suc k) xs" by (simp add: Cons_nth_drop_Suc)
  with assms k show ?thesis by simp
qed

lemma lookup_scan_eq:
  "0 \<le> k \<Longrightarrow> take n (drop (nat k) Jv) = seg \<Longrightarrow> length seg = n \<Longrightarrow>
   lookup_scan Jv j k n =
     Inr (let p = length (takeWhile (\<lambda>c. c \<noteq> j \<and> c \<noteq> - 1) seg)
          in if p < length seg \<and> seg ! p = j then k + int p else - 1)"
proof (induction seg arbitrary: k n)
  case Nil
  then show ?case by simp
next
  case (Cons c cs)
  then obtain n' where n: "n = Suc n'" by (cases n) auto
  from seg_Cons [of n' "nat k" Jv c cs] Cons.prems n
  have lt: "nat k < length Jv" and c: "Jv ! nat k = c"
    and cs: "take n' (drop (Suc (nat k)) Jv) = cs" by auto
  have r: "rd Jv k = Inr c" using lt c Cons.prems(1) by (simp add: rd_def)
  have "Suc (nat k) = nat (k + 1)" using Cons.prems(1) by simp
  with cs have cs': "take n' (drop (nat (k + 1)) Jv) = cs" by simp
  have ih: "lookup_scan Jv j (k + 1) n' =
     Inr (let p = length (takeWhile (\<lambda>c. c \<noteq> j \<and> c \<noteq> - 1) cs)
          in if p < length cs \<and> cs ! p = j then (k + 1) + int p else - 1)"
    using Cons.prems n by (intro Cons.IH cs') simp_all
  show ?case
    by (simp add: n r ih Let_def)
qed

lemma wf_row_bounds:
  assumes "wf_table T" "i < nat (sizeT T)"
  shows "0 \<le> I T ! i" "I T ! i \<le> I T ! (i + 1)" "I T ! (i + 1) \<le> int (length (J T))"
proof -
  have len: "length (I T) = nat (sizeT T) + 1" and z: "I T ! 0 = 0" and s: "sorted (I T)"
    and l: "I T ! nat (sizeT T) = int (length (J T))"
    using assms(1) by (simp_all add: wf_table_def)
  have "I T ! 0 \<le> I T ! i" using s len assms(2) by (intro sorted_nth_mono) simp_all
  then show "0 \<le> I T ! i" using z by simp
  show "I T ! i \<le> I T ! (i + 1)" using s len assms(2) by (intro sorted_nth_mono) simp_all
  have "I T ! (i + 1) \<le> I T ! nat (sizeT T)" using s len assms(2) by (intro sorted_nth_mono) simp_all
  then show "I T ! (i + 1) \<le> int (length (J T))" using l by simp
qed

lemma map_nth_upt_take_drop:
  "b \<le> length xs \<Longrightarrow> map (\<lambda>k. xs ! k) [a..<b] = take (b - a) (drop a xs)"
  by (rule nth_equalityI) simp_all

lemma row_take_drop:
  assumes "wf_table T" "i < nat (sizeT T)"
  shows "row T i = take (nat (I T ! (i + 1) - I T ! i)) (drop (nat (I T ! i)) (J T))"
proof -
  note b = wf_row_bounds [OF assms]
  have "nat (I T ! (i + 1)) \<le> length (J T)" using b by simp
  then have "map (\<lambda>k. J T ! k) [nat (I T ! i) ..< nat (I T ! (i + 1))]
      = take (nat (I T ! (i + 1)) - nat (I T ! i)) (drop (nat (I T ! i)) (J T))"
    by (rule map_nth_upt_take_drop)
  then show ?thesis using b by (simp add: row_def nat_diff_distrib)
qed

lemma row_nth: "p < length (row T i) \<Longrightarrow> row T i ! p = J T ! (nat (I T ! i) + p)"
  by (simp add: row_def)

lemma first_stop_cases:
  fixes r :: "int list"
  shows "j \<in> set (upto_unset r) \<Longrightarrow>
           length (takeWhile (\<lambda>c. c \<noteq> j \<and> c \<noteq> - 1) r) < length r \<and>
           r ! length (takeWhile (\<lambda>c. c \<noteq> j \<and> c \<noteq> - 1) r) = j \<and>
           (\<forall>q < length (takeWhile (\<lambda>c. c \<noteq> j \<and> c \<noteq> - 1) r). r ! q \<noteq> j)"
    and "j \<notin> set (upto_unset r) \<Longrightarrow>
           \<not> (length (takeWhile (\<lambda>c. c \<noteq> j \<and> c \<noteq> - 1) r) < length r \<and>
              r ! length (takeWhile (\<lambda>c. c \<noteq> j \<and> c \<noteq> - 1) r) = j)"
  unfolding upto_unset_def
  by (induction r) (auto simp: nth_Cons split: nat.splits)

text \<open>
  Claim C9, as the code has it. On every well-formed table \<^verbatim>\<open>operator()(i, j)\<close> returns a
  value and never fails; the table is only read (the operator is \<^verbatim>\<open>const\<close>, the model
  returns no table). For a row out of range the value is \<open>-1\<close>. For a valid row it is
  the slot of the first occurrence of \<open>j\<close> when \<open>j\<close> occurs in the row no later than the
  row's first unset cell, and \<open>-1\<close> otherwise: the scan gives up at the first unset cell.
\<close>

theorem Table_op_lookup:
  assumes "wf_table T"
  shows "\<exists>v. Table_op T i j = Inr v \<and>
    (i < 0 \<or> sizeT T \<le> i \<longrightarrow> v = - 1) \<and>
    (0 \<le> i \<and> i < sizeT T \<longrightarrow>
       (j \<in> set (upto_unset (row T (nat i))) \<longrightarrow>
          (\<exists>p < length (row T (nat i)). v = I T ! nat i + int p \<and> row T (nat i) ! p = j \<and>
             J T ! nat v = j \<and> (\<forall>q<p. row T (nat i) ! q \<noteq> j))) \<and>
       (j \<notin> set (upto_unset (row T (nat i))) \<longrightarrow> v = - 1))"
proof (cases "0 \<le> i \<and> i < sizeT T")
  case False
  then show ?thesis by (auto simp: Table_op_def)
next
  case True
  then have i: "nat i < nat (sizeT T)" by simp
  note b = wf_row_bounds [OF assms i]
  have len: "length (I T) = nat (sizeT T) + 1" using assms by (simp add: wf_table_def)
  let ?k = "I T ! nat i" and ?e = "I T ! (nat i + 1)"
  let ?r = "row T (nat i)"
  let ?p = "length (takeWhile (\<lambda>c. c \<noteq> j \<and> c \<noteq> - 1) ?r)"
  have r1: "rd (I T) (i + 1) = Inr ?e" using True len by (simp add: rd_def nat_add_distrib)
  have r2: "rd (I T) i = Inr ?k" using True len by (simp add: rd_def)
  have rw: "?r = take (nat (?e - ?k)) (drop (nat ?k) (J T))"
    using row_take_drop [OF assms i] by simp
  have lr: "length ?r = nat (?e - ?k)" using b by (simp add: row_def nat_diff_distrib)
  have scan: "lookup_scan (J T) j ?k (nat (?e - ?k)) =
      Inr (if ?p < length ?r \<and> ?r ! ?p = j then ?k + int ?p else - 1)"
    using lookup_scan_eq [OF b(1) rw [symmetric] lr, of j] by (simp add: Let_def)
  have op: "Table_op T i j = Inr (if ?p < length ?r \<and> ?r ! ?p = j then ?k + int ?p else - 1)"
    using True scan by (simp add: Table_op_def r1 r2)
  show ?thesis
  proof (cases "j \<in> set (upto_unset ?r)")
    case in_r: True
    from first_stop_cases(1) [OF in_r]
    have p: "?p < length ?r" "?r ! ?p = j" "\<forall>q<?p. ?r ! q \<noteq> j" by auto
    have "J T ! nat (?k + int ?p) = ?r ! ?p"
      using row_nth [OF p(1)] b(1) by (simp add: nat_add_distrib)
    with p op True in_r show ?thesis by auto
  next
    case nin: False
    from first_stop_cases(2) [OF nin] op True nin show ?thesis by auto
  qed
qed

theorem Table_op_lookup_witness:
  "wf_table \<lparr>sizeT = 1, I = [0, 3], J = [7, 3, - 1]\<rparr> \<and>
   (\<exists>v. Table_op \<lparr>sizeT = 1, I = [0, 3], J = [7, 3, - 1]\<rparr> 0 3 = Inr v \<and>
        J \<lparr>sizeT = 1, I = [0, 3], J = [7, 3, - 1]\<rparr> ! nat v = 3) \<and>
   Table_op \<lparr>sizeT = 1, I = [0, 3], J = [7, 3, - 1]\<rparr> 0 4 = Inr (- 1) \<and>
   Table_op \<lparr>sizeT = 1, I = [0, 3], J = [7, 3, - 1]\<rparr> 1 3 = Inr (- 1)"
proof -
  let ?T = "\<lparr>sizeT = 1, I = [0, 3], J = [7, 3, - 1]\<rparr>"
  have w: "wf_table ?T" by (simp add: wf_table_def)
  have r: "row ?T 0 = [7, 3, - 1]"
    by (simp add: row_def upt_rec [of 0] upt_rec [of 1] upt_rec [of 2] numeral_3_eq_3)
  have m3: "3 \<in> set (upto_unset (row ?T (nat 0)))" by (simp add: r upto_unset_def)
  have m4: "4 \<notin> set (upto_unset (row ?T (nat 0)))" by (simp add: r upto_unset_def)
  from Table_op_lookup [OF w, of 0 3] m3
  have a: "\<exists>v. Table_op ?T 0 3 = Inr v \<and> J ?T ! nat v = 3" by auto
  from Table_op_lookup [OF w, of 0 4] m4
  have b: "Table_op ?T 0 4 = Inr (- 1)" by auto
  from Table_op_lookup [OF w, of 1 3]
  have c: "Table_op ?T 1 3 = Inr (- 1)" by auto
  from w a b c show ?thesis by blast
qed

text \<open>
  The claim as the specification states it fails where a column is stored behind an
  unset cell: row \<open>0\<close> of the table below holds column \<open>5\<close> in its second slot, and the
  lookup of \<open>5\<close> returns \<open>-1\<close>.
\<close>

theorem Table_op_counterexample:
  "wf_table \<lparr>sizeT = 1, I = [0, 2], J = [- 1, 5]\<rparr> \<and>
   5 \<in> set (row \<lparr>sizeT = 1, I = [0, 2], J = [- 1, 5]\<rparr> 0) \<and>
   Table_op \<lparr>sizeT = 1, I = [0, 2], J = [- 1, 5]\<rparr> 0 5 = Inr (- 1)"
  by (simp add: wf_table_def row_def Table_op_def rd_def upt_rec [of 0] upt_rec [of 1] numeral_2_eq_2)

section \<open>Push on a fixed-degree table\<close>

lemma push_scan_eq:
  "0 \<le> k \<Longrightarrow> take n (drop (nat k) Jv) = seg \<Longrightarrow> length seg = n \<Longrightarrow>
   push_scan Jv j k n =
     (let p = length (takeWhile (\<lambda>c. c \<noteq> j \<and> c \<noteq> - 1) seg)
      in if p < length seg
         then (if seg ! p = j then Inr (k + int p, Jv)
               else Inr (k + int p, Jv[nat k + p := j]))
         else Inl Fatal)"
proof (induction seg arbitrary: k n)
  case Nil
  then show ?case by simp
next
  case (Cons c cs)
  then obtain n' where n: "n = Suc n'" by (cases n) auto
  from seg_Cons [of n' "nat k" Jv c cs] Cons.prems n
  have lt: "nat k < length Jv" and c: "Jv ! nat k = c"
    and cs: "take n' (drop (Suc (nat k)) Jv) = cs" by auto
  have r: "rd Jv k = Inr c" using lt c Cons.prems(1) by (simp add: rd_def)
  have w: "wr Jv k j = Inr (Jv[nat k := j])" using lt Cons.prems(1) by (simp add: wr_def)
  have "Suc (nat k) = nat (k + 1)" using Cons.prems(1) by simp
  with cs have cs': "take n' (drop (nat (k + 1)) Jv) = cs" by simp
  have ih: "push_scan Jv j (k + 1) n' =
     (let p = length (takeWhile (\<lambda>c. c \<noteq> j \<and> c \<noteq> - 1) cs)
      in if p < length cs
         then (if cs ! p = j then Inr ((k + 1) + int p, Jv)
               else Inr ((k + 1) + int p, Jv[nat (k + 1) + p := j]))
         else Inl Fatal)"
    using Cons.prems n by (intro Cons.IH cs') simp_all
  have "nat (k + 1) = Suc (nat k)" using Cons.prems(1) by simp
  then show ?case
    by (simp add: n r w ih Let_def)
qed


lemma wf_row_length:
  assumes "wf_table T" "i < nat (sizeT T)"
  shows "length (row T i) = nat (I T ! (i + 1) - I T ! i)"
  using wf_row_bounds [OF assms] by (simp add: row_def nat_diff_distrib)

lemma Push_eq:
  assumes "wf_table T" "0 \<le> i" "i < sizeT T"
  shows "Push dbg T i j =
     (let r = row T (nat i); p = length (takeWhile (\<lambda>c. c \<noteq> j \<and> c \<noteq> - 1) r)
      in if p < length r
         then (if r ! p = j then Inr (I T ! nat i + int p, T)
               else Inr (I T ! nat i + int p, T\<lparr>J := (J T)[nat (I T ! nat i) + p := j]\<rparr>))
         else Inl Fatal)"
proof -
  have i: "nat i < nat (sizeT T)" using assms by simp
  note b = wf_row_bounds [OF assms(1) i]
  have len: "length (I T) = nat (sizeT T) + 1" using assms by (simp add: wf_table_def)
  let ?k = "I T ! nat i" and ?e = "I T ! (nat i + 1)"
  have r1: "rd (I T) (i + 1) = Inr ?e" using assms len by (simp add: rd_def nat_add_distrib)
  have r2: "rd (I T) i = Inr ?k" using assms len by (simp add: rd_def)
  have rw: "take (nat (?e - ?k)) (drop (nat ?k) (J T)) = row T (nat i)"
    using row_take_drop [OF assms(1) i] by simp
  have lr: "length (row T (nat i)) = nat (?e - ?k)" by (rule wf_row_length [OF assms(1) i])
  note scan = push_scan_eq [OF b(1) rw lr, of j]
  show ?thesis using assms(2,3) scan
    by (simp add: Push_def r1 r2 Let_def)
qed

lemma row_update_same:
  assumes "wf_table T" "i < nat (sizeT T)" "p < length (row T i)"
  shows "row (T\<lparr>J := (J T)[nat (I T ! i) + p := j]\<rparr>) i = (row T i)[p := j]"
proof (rule nth_equalityI)
  show "length (row (T\<lparr>J := (J T)[nat (I T ! i) + p := j]\<rparr>) i) = length ((row T i)[p := j])"
    by (simp add: row_def)
next
  fix q assume "q < length (row (T\<lparr>J := (J T)[nat (I T ! i) + p := j]\<rparr>) i)"
  then have q: "q < length (row T i)" by (simp add: row_def)
  note b = wf_row_bounds [OF assms(1,2)]
  have "nat (I T ! i) + p < length (J T)"
    using assms(3) b wf_row_length [OF assms(1,2)] by linarith
  then show "row (T\<lparr>J := (J T)[nat (I T ! i) + p := j]\<rparr>) i ! q = (row T i)[p := j] ! q"
    using q assms(3) by (simp add: row_def nth_list_update)
qed

lemma row_update_other:
  assumes "wf_table T" "i < nat (sizeT T)" "p < length (row T i)" "i' < nat (sizeT T)" "i' \<noteq> i"
  shows "row (T\<lparr>J := (J T)[nat (I T ! i) + p := j]\<rparr>) i' = row T i'"
proof -
  have len: "length (I T) = nat (sizeT T) + 1" and s: "sorted (I T)"
    using assms(1) by (simp_all add: wf_table_def)
  note b = wf_row_bounds [OF assms(1,2)]
  note b' = wf_row_bounds [OF assms(1,4)]
  have x: "nat (I T ! i) + p < nat (I T ! (i + 1))"
    using assms(3) b wf_row_length [OF assms(1,2)] by linarith
  have out: "nat (I T ! i) + p < nat (I T ! i') \<or> nat (I T ! (i' + 1)) \<le> nat (I T ! i) + p"
  proof (cases "i' < i")
    case True
    then have "I T ! (i' + 1) \<le> I T ! i" using s len assms(2) by (intro sorted_nth_mono) simp_all
    then show ?thesis by linarith
  next
    case False
    then have "I T ! (i + 1) \<le> I T ! i'" using s len assms(4,5) by (intro sorted_nth_mono) simp_all
    then show ?thesis using x by linarith
  qed
  show ?thesis unfolding row_def using out by (auto simp: nth_list_update)
qed

lemma wf_table_J_update: "wf_table T \<Longrightarrow> wf_table (T\<lparr>J := (J T)[x := j]\<rparr>)"
  by (simp add: wf_table_def)


lemma stop_present:
  fixes r :: "int list"
  shows "trailing_unset r \<Longrightarrow> j \<in> set r \<Longrightarrow>
     length (takeWhile (\<lambda>c. c \<noteq> j \<and> c \<noteq> - 1) r) < length r \<and>
     r ! length (takeWhile (\<lambda>c. c \<noteq> j \<and> c \<noteq> - 1) r) = j"
proof (induction r)
  case Nil
  then show ?case by simp
next
  case (Cons c cs)
  show ?case
  proof (cases "c = j")
    case True
    then show ?thesis by simp
  next
    case cj: False
    show ?thesis
    proof (cases "c = - 1")
      case True
      with Cons.prems cj show ?thesis by (auto simp: trailing_unset_def)
    next
      case False
      with Cons.prems cj have "trailing_unset cs" "j \<in> set cs"
        by (auto simp: trailing_unset_def)
      from Cons.IH [OF this] cj False show ?thesis by simp
    qed
  qed
qed

lemma stop_unset:
  fixes r :: "int list"
  shows "j \<notin> set r \<Longrightarrow> - 1 \<in> set r \<Longrightarrow>
     length (takeWhile (\<lambda>c. c \<noteq> j \<and> c \<noteq> - 1) r) = length (takeWhile (\<lambda>c. c \<noteq> - 1) r) \<and>
     length (takeWhile (\<lambda>c. c \<noteq> - 1) r) < length r \<and>
     r ! length (takeWhile (\<lambda>c. c \<noteq> - 1) r) = - 1"
  by (induction r) auto

lemma stop_full:
  fixes r :: "int list"
  shows "j \<notin> set r \<Longrightarrow> - 1 \<notin> set r \<Longrightarrow>
     length (takeWhile (\<lambda>c. c \<noteq> j \<and> c \<noteq> - 1) r) = length r"
  by (induction r) auto

lemma takeWhile_set_part:
  fixes xs :: "int list"
  assumes "- 1 \<notin> set xs"
  shows "takeWhile (\<lambda>c. c \<noteq> - 1) (xs @ replicate n (- 1)) = xs"
proof -
  have "takeWhile (\<lambda>c. c \<noteq> - 1) (xs @ replicate n (- 1))
      = xs @ takeWhile (\<lambda>c::int. c \<noteq> - 1) (replicate n (- 1))"
    using assms by (intro takeWhile_append2) auto
  then show ?thesis by (simp add: takeWhile_replicate)
qed

lemma dropWhile_set_part:
  fixes xs :: "int list"
  assumes "- 1 \<notin> set xs"
  shows "dropWhile (\<lambda>c. c \<noteq> - 1) (xs @ replicate n (- 1)) = replicate n (- 1)"
proof -
  have "dropWhile (\<lambda>c. c \<noteq> - 1) (xs @ replicate n (- 1))
      = dropWhile (\<lambda>c::int. c \<noteq> - 1) (replicate n (- 1))"
    using assms by (intro dropWhile_append2) auto
  then show ?thesis by (simp add: dropWhile_replicate)
qed

lemma trailing_unset_iff:
  "trailing_unset r \<longleftrightarrow> (\<exists>xs n. r = xs @ replicate n (- 1) \<and> - 1 \<notin> set xs \<and> distinct xs)"
proof
  assume t: "trailing_unset r"
  let ?xs = "takeWhile (\<lambda>c. c \<noteq> - 1) r" and ?ys = "dropWhile (\<lambda>c. c \<noteq> - 1) r"
  have "?ys = replicate (length ?ys) (- 1)"
  proof (rule replicate_eqI)
    show "length ?ys = length ?ys" by simp
    fix y assume "y \<in> set ?ys"
    then show "y = - 1" using t unfolding trailing_unset_def by blast
  qed
  then have "?xs @ ?ys = ?xs @ replicate (length ?ys) (- 1)" by simp
  then have "r = ?xs @ replicate (length ?ys) (- 1)" by (simp only: takeWhile_dropWhile_id)
  moreover have "- 1 \<notin> set ?xs" by (auto dest: set_takeWhileD)
  moreover have "distinct ?xs" using t by (simp add: trailing_unset_def)
  ultimately show "\<exists>xs n. r = xs @ replicate n (- 1) \<and> - 1 \<notin> set xs \<and> distinct xs" by blast
next
  assume "\<exists>xs n. r = xs @ replicate n (- 1) \<and> - 1 \<notin> set xs \<and> distinct xs"
  then obtain xs n where r: "r = xs @ replicate n (- 1)" and xs: "- 1 \<notin> set xs" "distinct xs" by blast
  show "trailing_unset r"
    unfolding trailing_unset_def r
    by (simp only: takeWhile_set_part [OF xs(1)] dropWhile_set_part [OF xs(1)]) (auto simp: xs)
qed

lemma trailing_unset_update:
  assumes "trailing_unset r" "j \<notin> set r" "- 1 \<in> set r"
  shows "trailing_unset (r[length (takeWhile (\<lambda>c. c \<noteq> - 1) r) := j])"
proof -
  from assms(1) obtain xs n where r: "r = xs @ replicate n (- 1)" and xs: "- 1 \<notin> set xs" "distinct xs"
    unfolding trailing_unset_iff by blast
  from assms(3) r xs obtain m where n: "n = Suc m" by (cases n) auto
  have j: "j \<noteq> - 1" "j \<notin> set xs" using assms(2,3) r by auto
  have tw: "takeWhile (\<lambda>c. c \<noteq> - 1) r = xs"
    unfolding r using xs(1) by (rule takeWhile_set_part)
  have "r[length xs := j] = (xs @ [j]) @ replicate m (- 1)"
    by (simp add: r n list_update_append)
  then have "r[length (takeWhile (\<lambda>c. c \<noteq> - 1) r) := j] = (xs @ [j]) @ replicate m (- 1)"
    by (simp only: tw)
  moreover have "- 1 \<notin> set (xs @ [j])" "distinct (xs @ [j])" using xs j by auto
  ultimately show ?thesis unfolding trailing_unset_iff by blast
qed

lemma Push_preserves_inv:
  assumes "fixed_degree_inv T" "Push dbg T i j = Inr (slot, T')"
  shows "fixed_degree_inv T'"
proof -
  have wf: "wf_table T" and tr: "\<And>i. i < nat (sizeT T) \<Longrightarrow> trailing_unset (row T i)"
    using assms(1) by (simp_all add: fixed_degree_inv_def)
  have len: "length (I T) = nat (sizeT T) + 1" using wf by (simp add: wf_table_def)
  have rng: "0 \<le> i \<and> i < sizeT T"
  proof (rule ccontr)
    assume "\<not> ?thesis"
    then have "i < 0 \<or> int (length (I T)) \<le> i + 1" using len wf by (auto simp: wf_table_def)
    then have "rd (I T) i = Inl OutOfBounds \<or> rd (I T) (i + 1) = Inl OutOfBounds"
      by (auto simp: rd_def)
    then show False using assms(2) by (auto simp: Push_def bnd_def split: if_splits sum.splits)
  qed
  then have i: "nat i < nat (sizeT T)" by simp
  let ?r = "row T (nat i)"
  let ?p = "length (takeWhile (\<lambda>c. c \<noteq> j \<and> c \<noteq> - 1) ?r)"
  note eq = Push_eq [OF wf, of i dbg j]
  show ?thesis
  proof (cases "j \<in> set ?r")
    case True
    from stop_present [OF tr [OF i] True] eq rng assms(2) have "T' = T" by (simp add: Let_def)
    then show ?thesis using assms(1) by simp
  next
    case False
    show ?thesis
    proof (cases "- 1 \<in> set ?r")
      case nofree: False
      from stop_full [OF False nofree] eq rng assms(2) show ?thesis by (simp add: Let_def)
    next
      case True
      note st = stop_unset [OF False True]
      let ?q = "length (takeWhile (\<lambda>c. c \<noteq> - 1) ?r)"
      have "?r ! ?p \<noteq> j" using st False by (metis nth_mem)
      with st eq rng assms(2) have T': "T' = T\<lparr>J := (J T)[nat (I T ! nat i) + ?q := j]\<rparr>"
        by (simp add: Let_def)
      have q: "?q < length ?r" using st by simp
      have wf': "wf_table T'" unfolding T' by (rule wf_table_J_update [OF wf])
      have "trailing_unset (row T' i')" if i': "i' < nat (sizeT T)" for i'
      proof (cases "i' = nat i")
        case True
        then show ?thesis unfolding T'
          using row_update_same [OF wf i q] trailing_unset_update [OF tr [OF i] False \<open>- 1 \<in> set ?r\<close>]
          by simp
      next
        case False
        then show ?thesis unfolding T'
          using row_update_other [OF wf i q i' False] tr [OF i'] by simp
      qed
      then show ?thesis using wf' by (simp add: fixed_degree_inv_def T')
    qed
  qed
qed


lemma Table_ctor_ok:
  assumes d: "0 \<le> dim" and c: "0 \<le> cpr"
  shows "\<exists>T. Table_ctor dim cpr = Inr T \<and> sizeT T = dim \<and> length (I T) = nat dim + 1 \<and>
           (\<forall>q \<le> nat dim. I T ! q = int q * cpr) \<and> J T = replicate (nat (dim * cpr)) (- 1)"
proof -
  let ?sum = "dim * cpr"
  have sum: "0 \<le> ?sum" using d c by simp
  let ?body = "\<lambda>i (Iv, Jv).
                     bnd (rd Iv (i - 1)) (\<lambda>a.
                     bnd (wr Iv i (a + cpr)) (\<lambda>Iv'.
                     bnd (rd Iv' (i - 1)) (\<lambda>lo.
                     bnd (rd Iv' i) (\<lambda>hi.
                     bnd (for_loop lo hi (\<lambda>j Jw. wr Jw j (- 1)) Jv) (\<lambda>Jv'.
                     Inr (Iv', Jv'))))))"
  let ?P = "\<lambda>i (st :: int list \<times> int list). length (fst st) = nat dim + 1 \<and>
              (\<forall>q. int q < i \<longrightarrow> fst st ! q = int q * cpr) \<and>
              length (snd st) = nat ?sum \<and> (\<forall>q. int q < (i - 1) * cpr \<longrightarrow> snd st ! q = - 1)"
  let ?I0 = "(new_int (dim + 1))[0 := 0]"
  have w0: "wr (new_int (dim + 1)) 0 0 = Inr ?I0" using d by (simp add: wr_def new_int_def)
  have "\<exists>s'. for_loop 1 (dim + 1) ?body (?I0, new_int ?sum) = Inr s' \<and> ?P (dim + 1) s'"
  proof (rule for_loop_inv [where P = ?P])
    show "1 \<le> dim + 1" using d by simp
    show "?P 1 (?I0, new_int ?sum)"
      using d by (auto simp: new_int_def)
  next
    fix k st assume k: "1 \<le> k" "k < dim + 1" and inv: "?P k st"
    obtain Iv Jv where st: "st = (Iv, Jv)" by (cases st)
    from inv st have lI: "length Iv = nat dim + 1"
      and Iq: "\<And>q. int q < k \<Longrightarrow> Iv ! q = int q * cpr"
      and lJ: "length Jv = nat ?sum"
      and Jq: "\<And>q. int q < (k - 1) * cpr \<Longrightarrow> Jv ! q = - 1" by auto
    let ?Iv' = "Iv[nat k := (k - 1) * cpr + cpr]"
    have a: "rd Iv (k - 1) = Inr ((k - 1) * cpr)"
      using k lI Iq [of "nat (k - 1)"] by (simp add: rd_def)
    have w: "wr Iv k ((k - 1) * cpr + cpr) = Inr ?Iv'" using k lI by (simp add: wr_def)
    have lo: "rd ?Iv' (k - 1) = Inr ((k - 1) * cpr)"
      using k lI Iq [of "nat (k - 1)"] by (simp add: rd_def nat_diff_distrib)
    have hi: "rd ?Iv' k = Inr (k * cpr)"
      using k lI by (simp add: rd_def algebra_simps)
    have b1: "0 \<le> (k - 1) * cpr" using k c by simp
    have b2: "(k - 1) * cpr \<le> k * cpr" using c by (simp add: mult_right_mono)
    have "k * cpr \<le> dim * cpr" using k c by (intro mult_right_mono) simp_all
    then have b3: "k * cpr \<le> int (length Jv)" using lJ sum by simp
    from fill_loop [OF b1 b2 b3, of "- 1"]
    obtain Jv' where f: "for_loop ((k - 1) * cpr) (k * cpr) (\<lambda>j Jw. wr Jw j (- 1)) Jv = Inr Jv'"
      and lJ': "length Jv' = length Jv"
      and Jq': "\<And>q. q < length Jv \<Longrightarrow>
                 Jv' ! q = (if (k - 1) * cpr \<le> int q \<and> int q < k * cpr then - 1 else Jv ! q)"
      by blast
    have body: "?body k st = Inr (?Iv', Jv')"
      by (simp add: st a w lo hi f)
    have "?P (k + 1) (?Iv', Jv')"
    proof (intro conjI allI impI)
      show "length (fst (?Iv', Jv')) = nat dim + 1" using lI by simp
      show "length (snd (?Iv', Jv')) = nat ?sum" using lJ lJ' by simp
    next
      fix q assume q: "int q < k + 1"
      show "fst (?Iv', Jv') ! q = int q * cpr"
      proof (cases "q = nat k")
        case True
        then show ?thesis using k lI by (simp add: algebra_simps)
      next
        case False
        then have "int q < k" using q k by linarith
        then show ?thesis using False Iq by simp
      qed
    next
      fix q assume q: "int q < (k + 1 - 1) * cpr"
      then have "int q < int (length Jv)" using b3 by simp
      then have ql: "q < length Jv" by simp
      show "snd (?Iv', Jv') ! q = - 1"
      proof (cases "(k - 1) * cpr \<le> int q")
        case True
        then show ?thesis using q Jq' [OF ql] by simp
      next
        case False
        then show ?thesis using Jq' [OF ql] Jq [of q] by simp
      qed
    qed
    with body show "\<exists>s'. ?body k st = Inr s' \<and> ?P (k + 1) s'" by blast
  qed
  then obtain s' where loop': "for_loop 1 (dim + 1) ?body (?I0, new_int ?sum) = Inr s'"
    and fin': "?P (dim + 1) s'" by blast
  obtain Iv Jv where s': "s' = (Iv, Jv)" by (cases s')
  have loop: "for_loop 1 (dim + 1) ?body (?I0, new_int ?sum) = Inr (Iv, Jv)"
    using loop' s' by simp
  have fin: "?P (dim + 1) (Iv, Jv)" using fin' s' by simp
  have "Jv = replicate (nat ?sum) (- 1)"
  proof (rule replicate_eqI)
    show "length Jv = nat ?sum" using fin by simp
    fix y assume "y \<in> set Jv"
    then obtain q where "q < length Jv" "Jv ! q = y" by (auto simp: in_set_conv_nth)
    moreover have "int q < (dim + 1 - 1) * cpr" using calculation(1) fin sum by simp
    ultimately show "y = - 1" using fin by auto
  qed
  moreover have "\<forall>q \<le> nat dim. Iv ! q = int q * cpr" using fin d by auto
  moreover have "Table_ctor dim cpr = Inr \<lparr>sizeT = dim, I = Iv, J = Jv\<rparr>"
    using sum d by (simp add: Table_ctor_def Let_def w0 loop)
  ultimately show ?thesis using fin by simp
qed

lemma Table_ctor_inv:
  assumes "Table_ctor dim cpr = Inr T"
  shows "fixed_degree_inv T"
proof -
  have nb: "\<not> (dim + 1 < 0 \<or> dim * cpr < 0)"
    using assms by (auto simp: Table_ctor_def Let_def)
  have "dim \<noteq> - 1"
  proof
    assume "dim = - 1"
    then have "wr (new_int (dim + 1)) 0 (0::int) = Inl OutOfBounds" by (simp add: wr_def new_int_def)
    with assms nb show False by (simp add: Table_ctor_def Let_def)
  qed
  with nb have d: "0 \<le> dim" by linarith
  show ?thesis
  proof (cases "dim = 0")
    case True
    have "for_loop 1 (dim + 1) body s = Inr s" for body :: "int \<Rightarrow> (int list \<times> int list) \<Rightarrow> error + (int list \<times> int list)" and s
      using True by (simp add: for_loop_def)
    then have "T = \<lparr>sizeT = 0, I = [0], J = []\<rparr>"
      using assms True by (simp add: Table_ctor_def Let_def new_int_def wr_def)
    then show ?thesis by (simp add: fixed_degree_inv_def wf_table_def)
  next
    case False
    with d have "0 < dim" by simp
    moreover from nb have "0 \<le> dim * cpr" by simp
    ultimately have c: "0 \<le> cpr" by (simp add: zero_le_mult_iff)
    from Table_ctor_ok [OF d c] assms
    have sz: "sizeT T = dim" and lI: "length (I T) = nat dim + 1"
      and Iq: "\<And>q. q \<le> nat dim \<Longrightarrow> I T ! q = int q * cpr"
      and Jr: "J T = replicate (nat (dim * cpr)) (- 1)" by auto
    have "sorted (I T)"
      unfolding sorted_iff_nth_mono
    proof (intro allI impI)
      fix i j assume "i \<le> j" "j < length (I T)"
      then show "I T ! i \<le> I T ! j" using lI Iq c by (simp add: mult_right_mono)
    qed
    then have wf: "wf_table T" using sz lI Iq [of 0] Iq [of "nat dim"] d c Jr
      by (simp add: wf_table_def)
    have "trailing_unset (row T i)" if "i < nat (sizeT T)" for i
    proof -
      have "set (row T i) \<subseteq> {- 1}"
      proof
        fix y assume "y \<in> set (row T i)"
        then obtain p where p: "p < length (row T i)" "row T i ! p = y"
          by (auto simp: in_set_conv_nth)
        have "nat (I T ! i) + p < length (J T)"
          using p(1) wf_row_bounds [OF wf that] wf_row_length [OF wf that] by linarith
        then have "J T ! (nat (I T ! i) + p) = - 1" unfolding Jr by simp
        then show "y \<in> {- 1}" using row_nth [OF p(1)] p(2) by simp
      qed
      then have eq: "row T i = replicate (length (row T i)) (- 1)"
        by (auto intro!: replicate_eqI)
      show ?thesis unfolding trailing_unset_iff
        by (rule exI [of _ "[]"], rule exI [of _ "length (row T i)"]) (use eq in simp)
    qed
    then show ?thesis using wf by (simp add: fixed_degree_inv_def)
  qed
qed

lemma fixed_degree_imp_inv: "fixed_degree T \<Longrightarrow> fixed_degree_inv T"
  by (induction rule: fixed_degree.induct) (auto intro: Table_ctor_inv Push_preserves_inv)

lemma Push_cases:
  assumes inv: "fixed_degree_inv T" and i: "0 \<le> i" "i < sizeT T"
  shows "j \<in> set (row T (nat i)) \<Longrightarrow>
           \<exists>p < length (row T (nat i)). row T (nat i) ! p = j \<and> (\<forall>q<p. row T (nat i) ! q \<noteq> j) \<and>
              Push dbg T i j = Inr (I T ! nat i + int p, T)"
    and "j \<notin> set (row T (nat i)) \<Longrightarrow> - 1 \<in> set (row T (nat i)) \<Longrightarrow>
           \<exists>p < length (row T (nat i)). row T (nat i) ! p = - 1 \<and> (\<forall>q<p. row T (nat i) ! q \<noteq> - 1) \<and>
              p = length (takeWhile (\<lambda>c. c \<noteq> - 1) (row T (nat i))) \<and>
              Push dbg T i j = Inr (I T ! nat i + int p, T\<lparr>J := (J T)[nat (I T ! nat i) + p := j]\<rparr>)"
    and "j \<notin> set (row T (nat i)) \<Longrightarrow> - 1 \<notin> set (row T (nat i)) \<Longrightarrow> Push dbg T i j = Inl Fatal"
proof -
  have wf: "wf_table T" and tr: "trailing_unset (row T (nat i))"
    using inv i by (simp_all add: fixed_degree_inv_def)
  let ?r = "row T (nat i)"
  let ?p = "length (takeWhile (\<lambda>c. c \<noteq> j \<and> c \<noteq> - 1) ?r)"
  note eq = Push_eq [OF wf i, of dbg j]
  {
    assume in_r: "j \<in> set ?r"
    note st = stop_present [OF tr in_r]
    have "\<forall>q<?p. ?r ! q \<noteq> j"
    proof (intro allI impI)
      fix q assume q: "q < ?p"
      have "takeWhile (\<lambda>c. c \<noteq> j \<and> c \<noteq> - 1) ?r ! q \<in> set (takeWhile (\<lambda>c. c \<noteq> j \<and> c \<noteq> - 1) ?r)"
        using q by (intro nth_mem)
      then have "takeWhile (\<lambda>c. c \<noteq> j \<and> c \<noteq> - 1) ?r ! q \<noteq> j" by (auto dest: set_takeWhileD)
      then show "?r ! q \<noteq> j" using q by (simp add: takeWhile_nth)
    qed
    with st eq show "\<exists>p < length ?r. ?r ! p = j \<and> (\<forall>q<p. ?r ! q \<noteq> j) \<and>
              Push dbg T i j = Inr (I T ! nat i + int p, T)"
      by (auto simp: Let_def)
  }
  {
    assume nin: "j \<notin> set ?r" and free: "- 1 \<in> set ?r"
    note st = stop_unset [OF nin free]
    let ?q = "length (takeWhile (\<lambda>c. c \<noteq> - 1) ?r)"
    have ne: "?r ! ?p \<noteq> j" using st nin by (metis nth_mem)
    have "\<forall>q<?q. ?r ! q \<noteq> - 1"
    proof (intro allI impI)
      fix q assume q: "q < ?q"
      have "takeWhile (\<lambda>c. c \<noteq> - 1) ?r ! q \<in> set (takeWhile (\<lambda>c. c \<noteq> - 1) ?r)"
        using q by (intro nth_mem)
      then have "takeWhile (\<lambda>c. c \<noteq> - 1) ?r ! q \<noteq> - 1" by (auto dest: set_takeWhileD)
      then show "?r ! q \<noteq> - 1" using q by (simp add: takeWhile_nth)
    qed
    moreover have "Push dbg T i j = Inr (I T ! nat i + int ?q, T\<lparr>J := (J T)[nat (I T ! nat i) + ?q := j]\<rparr>)"
      using st eq ne by (simp add: Let_def)
    ultimately show "\<exists>p < length ?r. ?r ! p = - 1 \<and> (\<forall>q<p. ?r ! q \<noteq> - 1) \<and>
              p = ?q \<and>
              Push dbg T i j = Inr (I T ! nat i + int p, T\<lparr>J := (J T)[nat (I T ! nat i) + p := j]\<rparr>)"
      using st by blast
  }
  {
    assume nin: "j \<notin> set ?r" and full: "- 1 \<notin> set ?r"
    from stop_full [OF nin full] eq show "Push dbg T i j = Inl Fatal" by (simp add: Let_def)
  }
qed

lemma Push_frame:
  assumes inv: "fixed_degree_inv T" and i: "0 \<le> i" "i < sizeT T"
    and p: "Push dbg T i j = Inr (slot, T')"
  shows "sizeT T' = sizeT T" "I T' = I T" "j \<in> set (row T' (nat i))"
    "set (row T (nat i)) - {- 1} \<subseteq> set (row T' (nat i))"
    "length (row T' (nat i)) = length (row T (nat i))"
proof -
  have wf: "wf_table T" using inv by (simp add: fixed_degree_inv_def)
  have ni: "nat i < nat (sizeT T)" using i by simp
  let ?r = "row T (nat i)"
  have all: "sizeT T' = sizeT T \<and> I T' = I T \<and> j \<in> set (row T' (nat i)) \<and>
    set ?r - {- 1} \<subseteq> set (row T' (nat i)) \<and> length (row T' (nat i)) = length ?r"
  proof (cases "j \<in> set ?r")
    case True
    from Push_cases(1) [OF inv i True, of dbg] p have "T' = T" by auto
    then show ?thesis using True by auto
  next
    case False
    show ?thesis
    proof (cases "- 1 \<in> set ?r")
      case nofree: False
      from Push_cases(3) [OF inv i False nofree, of dbg] p show ?thesis by simp
    next
      case True
      from Push_cases(2) [OF inv i False True, of dbg] p
      obtain q where q: "q < length ?r" "?r ! q = - 1"
        and T': "T' = T\<lparr>J := (J T)[nat (I T ! nat i) + q := j]\<rparr>" by auto
      have r': "row T' (nat i) = ?r[q := j]" unfolding T' by (rule row_update_same [OF wf ni q(1)])
      have "set ?r - {- 1} \<subseteq> set (?r[q := j])"
      proof
        fix y assume y: "y \<in> set ?r - {- 1}"
        then obtain n where n: "n < length ?r" "?r ! n = y" by (auto simp: in_set_conv_nth)
        with q y have "n \<noteq> q" by auto
        then have "?r[q := j] ! n = y" using n by simp
        then show "y \<in> set (?r[q := j])" using n(1) by (metis length_list_update nth_mem)
      qed
      moreover have "j \<in> set (?r[q := j])" using q(1) by (simp add: set_update_memI)
      ultimately show ?thesis using r' by (simp add: T')
    qed
  qed
  then show "sizeT T' = sizeT T" "I T' = I T" "j \<in> set (row T' (nat i))"
    "set (row T (nat i)) - {- 1} \<subseteq> set (row T' (nat i))"
    "length (row T' (nat i)) = length (row T (nat i))" by blast+
qed

lemma push_all_ok:
  assumes "fixed_degree_inv T" "0 \<le> i" "i < sizeT T" "push_all dbg T i cs = Inr T'"
  shows "fixed_degree_inv T' \<and> sizeT T' = sizeT T \<and> I T' = I T \<and>
         set cs - {- 1} \<subseteq> set (row T' (nat i)) \<and>
         set (row T (nat i)) - {- 1} \<subseteq> set (row T' (nat i)) \<and>
         length (row T' (nat i)) = length (row T (nat i))"
  using assms
proof (induction cs arbitrary: T)
  case Nil
  then show ?case by (simp add: push_all_def)
next
  case (Cons c cs)
  from Cons.prems(4) obtain slot T1 where p: "Push dbg T i c = Inr (slot, T1)"
    and rest: "push_all dbg T1 i cs = Inr T'"
    by (auto simp: push_all_def bnd_def split: sum.splits)
  note fr = Push_frame [OF Cons.prems(1,2,3) p]
  have inv1: "fixed_degree_inv T1" by (rule Push_preserves_inv [OF Cons.prems(1) p])
  have i1: "i < sizeT T1" using fr(1) Cons.prems(3) by simp
  note ih = Cons.IH [OF inv1 Cons.prems(2) i1 rest]
  show ?case using ih fr by auto
qed

lemma push_all_err:
  assumes "fixed_degree_inv T" "0 \<le> i" "i < sizeT T" "push_all dbg T i cs = Inl e"
  shows "e = Fatal"
  using assms
proof (induction cs arbitrary: T)
  case Nil
  then show ?case by (simp add: push_all_def)
next
  case (Cons c cs)
  show ?case
  proof (cases "Push dbg T i c")
    case (Inl e')
    have "e' = Fatal"
      using Push_cases [OF Cons.prems(1,2,3), of c dbg] Inl by (cases "c \<in> set (row T (nat i))"; cases "- 1 \<in> set (row T (nat i))") auto
    with Inl Cons.prems(4) show ?thesis by (simp add: push_all_def)
  next
    case (Inr res)
    obtain slot T1 where res: "res = (slot, T1)" by (cases res)
    have p: "Push dbg T i c = Inr (slot, T1)" using Inr res by simp
    have rest: "push_all dbg T1 i cs = Inl e" using Cons.prems(4) p by (simp add: push_all_def)
    note fr = Push_frame [OF Cons.prems(1,2,3) p]
    have inv1: "fixed_degree_inv T1" by (rule Push_preserves_inv [OF Cons.prems(1) p])
    have i1: "i < sizeT T1" using fr(1) Cons.prems(3) by simp
    show ?thesis by (rule Cons.IH [OF inv1 Cons.prems(2) i1 rest])
  qed
qed

lemma push_all_overfull:
  assumes inv: "fixed_degree_inv T" and i: "0 \<le> i" "i < sizeT T"
    and cs: "distinct cs" "- 1 \<notin> set cs" "length (row T (nat i)) < length cs"
  shows "push_all dbg T i cs = Inl Fatal"
proof (cases "push_all dbg T i cs")
  case (Inl e)
  with push_all_err [OF inv i Inl] show ?thesis by simp
next
  case (Inr T')
  from push_all_ok [OF inv i Inr]
  have sub: "set cs - {- 1} \<subseteq> set (row T' (nat i))"
    and len: "length (row T' (nat i)) = length (row T (nat i))" by auto
  have "length cs = card (set cs)" using cs(1) by (simp add: distinct_card)
  also have "\<dots> \<le> card (set (row T' (nat i)))" using sub cs(2) by (intro card_mono) auto
  also have "\<dots> \<le> length (row T' (nat i))" by (rule card_length)
  finally show ?thesis using cs(3) len by simp
qed

lemma takeWhile_update_stop:
  "length (takeWhile P r) = p \<Longrightarrow> p < length r \<Longrightarrow> \<not> P j \<Longrightarrow>
   length (takeWhile P (r[p := j])) = p"
proof (induction r arbitrary: p)
  case Nil
  then show ?case by simp
next
  case (Cons c cs)
  then show ?case by (cases p) (auto split: if_splits)
qed

text \<open>
  Claim C5. On a fixed-degree table (built by the fixed-degree constructor and \<^verbatim>\<open>Push\<close>
  calls) and a valid row \<open>i\<close>: when \<open>j\<close> is in the row, \<^verbatim>\<open>Push(i, j)\<close> returns the slot of
  its first occurrence and leaves the table as it is; when \<open>j\<close> is not in the row and
  the row has an unset cell, it writes \<open>j\<close> into the first unset cell and returns that
  slot; when \<open>j\<close> is not in the row and no cell is unset, it is the fatal error. A
  second \<^verbatim>\<open>Push(i, j)\<close> returns the same slot and changes nothing. Pushing more distinct
  columns than the row has cells ends in the fatal error.
\<close>

theorem Push_fixed_degree:
  assumes "fixed_degree T" "0 \<le> i" "i < sizeT T"
  shows "(j \<in> set (row T (nat i)) \<longrightarrow>
            (\<exists>p < length (row T (nat i)). row T (nat i) ! p = j \<and> (\<forall>q<p. row T (nat i) ! q \<noteq> j) \<and>
               Push dbg T i j = Inr (I T ! nat i + int p, T))) \<and>
         (j \<notin> set (row T (nat i)) \<and> - 1 \<in> set (row T (nat i)) \<longrightarrow>
            (\<exists>p < length (row T (nat i)). row T (nat i) ! p = - 1 \<and> (\<forall>q<p. row T (nat i) ! q \<noteq> - 1) \<and>
               Push dbg T i j =
                 Inr (I T ! nat i + int p, T\<lparr>J := (J T)[nat (I T ! nat i) + p := j]\<rparr>))) \<and>
         (j \<notin> set (row T (nat i)) \<and> - 1 \<notin> set (row T (nat i)) \<longrightarrow> Push dbg T i j = Inl Fatal) \<and>
         (\<forall>slot T'. Push dbg T i j = Inr (slot, T') \<longrightarrow> Push dbg T' i j = Inr (slot, T')) \<and>
         (\<forall>cs. distinct cs \<and> - 1 \<notin> set cs \<and> length (row T (nat i)) < length cs \<longrightarrow>
            push_all dbg T i cs = Inl Fatal)"
proof -
  have inv: "fixed_degree_inv T" by (rule fixed_degree_imp_inv [OF assms(1)])
  have wf: "wf_table T" using inv by (simp add: fixed_degree_inv_def)
  note i = assms(2,3)
  have ni: "nat i < nat (sizeT T)" using i by simp
  let ?r = "row T (nat i)"
  have idem: "Push dbg T' i j = Inr (slot, T')" if p: "Push dbg T i j = Inr (slot, T')" for slot T'
  proof (cases "j \<in> set ?r")
    case True
    from Push_cases(1) [OF inv i True, of dbg] p have "T' = T" by auto
    with p show ?thesis by simp
  next
    case False
    show ?thesis
    proof (cases "- 1 \<in> set ?r")
      case nofree: False
      from Push_cases(3) [OF inv i False nofree, of dbg] p show ?thesis by simp
    next
      case True
      from Push_cases(2) [OF inv i False True, of dbg] p
      obtain q where q: "q < length ?r" "?r ! q = - 1"
        and qq: "q = length (takeWhile (\<lambda>c. c \<noteq> - 1) ?r)"
        and slot: "slot = I T ! nat i + int q"
        and T': "T' = T\<lparr>J := (J T)[nat (I T ! nat i) + q := j]\<rparr>" by auto
      have r': "row T' (nat i) = ?r[q := j]" unfolding T' by (rule row_update_same [OF wf ni q(1)])
      have wf': "wf_table T'" unfolding T' by (rule wf_table_J_update [OF wf])
      have i': "i < sizeT T'" using i by (simp add: T')
      have "length (takeWhile (\<lambda>c. c \<noteq> j \<and> c \<noteq> - 1) ?r) = q"
        using stop_unset [OF False True] qq by simp
      then have st: "length (takeWhile (\<lambda>c. c \<noteq> j \<and> c \<noteq> - 1) (?r[q := j])) = q"
        using q(1) by (intro takeWhile_update_stop) simp_all
      show ?thesis
        using Push_eq [OF wf' i(1) i', of dbg j] q(1)
        by (simp add: r' st Let_def slot) (simp add: T')
    qed
  qed
  show ?thesis
    using Push_cases [OF inv i, of j dbg] idem push_all_overfull [OF inv i, of _ dbg]
    by blast
qed

theorem Push_fixed_degree_witness:
  "fixed_degree \<lparr>sizeT = 1, I = [0, 2], J = [- 1, - 1]\<rparr> \<and>
   Push True \<lparr>sizeT = 1, I = [0, 2], J = [- 1, - 1]\<rparr> 0 5 =
     Inr (0, \<lparr>sizeT = 1, I = [0, 2], J = [5, - 1]\<rparr>) \<and>
   Push True \<lparr>sizeT = 1, I = [0, 2], J = [5, - 1]\<rparr> 0 5 =
     Inr (0, \<lparr>sizeT = 1, I = [0, 2], J = [5, - 1]\<rparr>) \<and>
   push_all True \<lparr>sizeT = 1, I = [0, 2], J = [- 1, - 1]\<rparr> 0 [5, 7, 9] = Inl Fatal"
proof -
  let ?T0 = "\<lparr>sizeT = 1, I = [0, 2], J = [- 1, - 1]\<rparr>"
  let ?T1 = "\<lparr>sizeT = 1, I = [0, 2], J = [5, - 1]\<rparr>"
  have "Table_ctor 1 2 = Inr ?T0" by code_simp
  then have fd: "fixed_degree ?T0" by (rule fixed_degree.ctor)
  have r: "row ?T0 0 = [- 1, - 1]"
    by (simp add: row_def upt_rec [of 0] upt_rec [of 1] numeral_2_eq_2)
  have p: "Push True ?T0 0 5 = Inr (0, ?T1)" by code_simp
  note th = Push_fixed_degree [OF fd, of 0 5 True]
  from th p have idem: "Push True ?T1 0 5 = Inr (0, ?T1)" by simp
  from th have "distinct [5, 7, 9 :: int] \<and> - 1 \<notin> set [5, 7, 9 :: int] \<and>
      length (row ?T0 (nat 0)) < length [5, 7, 9 :: int] \<longrightarrow> push_all True ?T0 0 [5, 7, 9] = Inl Fatal"
    by simp
  then have "push_all True ?T0 0 [5, 7, 9] = Inl Fatal" by (simp add: r)
  with fd p idem show ?thesis by simp
qed

section \<open>Finalize\<close>

lemma rows_tile_take:
  assumes "wf_table T" "k \<le> nat (sizeT T)"
  shows "concat (map (row T) [0..<k]) = take (nat (I T ! k)) (J T)"
  using assms(2)
proof (induction k)
  case 0
  then show ?case using assms(1) by (simp add: wf_table_def)
next
  case (Suc k)
  then have k: "k < nat (sizeT T)" by simp
  note b = wf_row_bounds [OF assms(1) k]
  have "nat (I T ! Suc k) = nat (I T ! k) + nat (I T ! (k + 1) - I T ! k)" using b by simp
  then have "take (nat (I T ! Suc k)) (J T) =
      take (nat (I T ! k)) (J T) @ take (nat (I T ! (k + 1) - I T ! k)) (drop (nat (I T ! k)) (J T))"
    by (simp only: take_add)
  then show ?case using Suc.IH k row_take_drop [OF assms(1) k] by simp
qed

lemma rows_tile:
  assumes "wf_table T"
  shows "concat (map (row T) [0..<nat (sizeT T)]) = J T"
  using rows_tile_take [OF assms, of "nat (sizeT T)"] assms by (simp add: wf_table_def)

lemma copy_row_eq:
  "0 \<le> j \<Longrightarrow> take m (drop (nat j) Jv) = seg \<Longrightarrow> length seg = m \<Longrightarrow> 0 \<le> n \<Longrightarrow>
   nat n + length (takeWhile (\<lambda>c. c \<noteq> - 1) seg) \<le> length NewJ \<Longrightarrow>
   copy_row Jv j m (NewJ, n) =
     Inr (take (nat n) NewJ @ takeWhile (\<lambda>c. c \<noteq> - 1) seg @
            drop (nat n + length (takeWhile (\<lambda>c. c \<noteq> - 1) seg)) NewJ,
          n + int (length (takeWhile (\<lambda>c. c \<noteq> - 1) seg)))"
proof (induction seg arbitrary: j m n NewJ)
  case Nil
  then show ?case by simp
next
  case (Cons c cs)
  then obtain m' where m: "m = Suc m'" by (cases m) auto
  from seg_Cons [of m' "nat j" Jv c cs] Cons.prems m
  have lt: "nat j < length Jv" and c: "Jv ! nat j = c"
    and cs: "take m' (drop (Suc (nat j)) Jv) = cs" by auto
  have r: "rd Jv j = Inr c" using lt c Cons.prems(1) by (simp add: rd_def)
  show ?case
  proof (cases "c = - 1")
    case True
    then show ?thesis by (simp add: m r)
  next
    case False
    have nl: "nat n < length NewJ" using Cons.prems(5) False by simp
    have w: "wr NewJ n c = Inr (NewJ[nat n := c])" using nl Cons.prems(4) by (simp add: wr_def)
    have "Suc (nat j) = nat (j + 1)" using Cons.prems(1) by simp
    with cs have cs': "take m' (drop (nat (j + 1)) Jv) = cs" by simp
    have n1: "nat (n + 1) = Suc (nat n)" using Cons.prems(4) by simp
    have ih: "copy_row Jv (j + 1) m' (NewJ[nat n := c], n + 1) =
     Inr (take (nat (n + 1)) (NewJ[nat n := c]) @ takeWhile (\<lambda>c. c \<noteq> - 1) cs @
            drop (nat (n + 1) + length (takeWhile (\<lambda>c. c \<noteq> - 1) cs)) (NewJ[nat n := c]),
          (n + 1) + int (length (takeWhile (\<lambda>c. c \<noteq> - 1) cs)))"
      using Cons.prems m False by (intro Cons.IH cs') (simp_all add: n1)
    have t: "take (Suc (nat n)) (NewJ[nat n := c]) = take (nat n) NewJ @ [c]"
      using nl by (simp add: take_Suc_conv_app_nth)
    show ?thesis
      using False by (simp add: m r w ih n1 t)
  qed
qed

lemma unset_trails_filter:
  fixes r :: "int list"
  shows "unset_trails r \<Longrightarrow> takeWhile (\<lambda>c. c \<noteq> - 1) r = filter (\<lambda>c. c \<noteq> - 1) r"
proof (induction r)
  case Nil
  then show ?case by simp
next
  case (Cons c cs)
  show ?case
  proof (cases "c = - 1")
    case True
    with Cons.prems have "set cs \<subseteq> {- 1}" by (simp add: unset_trails_def)
    then have "filter (\<lambda>c. c \<noteq> - 1) cs = []" by (auto simp: filter_empty_conv)
    with True show ?thesis by simp
  next
    case False
    with Cons.prems have "unset_trails cs" by (simp add: unset_trails_def)
    from Cons.IH [OF this] False show ?thesis by simp
  qed
qed

lemma count_loop:
  "for_loop 0 (int (length Jv))
     (\<lambda>i sum. bnd (rd Jv i) (\<lambda>c. Inr (if c \<noteq> - 1 then sum + 1 else sum))) 0 =
   Inr (int (length (filter (\<lambda>c. c \<noteq> - 1) Jv)))"
proof -
  let ?body = "\<lambda>i sum. bnd (rd Jv i) (\<lambda>c. Inr (if c \<noteq> - 1 then sum + 1 else sum))"
  let ?P = "\<lambda>k s. s = int (length (filter (\<lambda>c. c \<noteq> - 1) (take (nat k) Jv)))"
  have "\<exists>s'. for_loop 0 (int (length Jv)) ?body 0 = Inr s' \<and> ?P (int (length Jv)) s'"
  proof (rule for_loop_inv [where P = ?P])
    show "0 \<le> int (length Jv)" by simp
    show "?P 0 0" by simp
  next
    fix k s assume k: "0 \<le> k" "k < int (length Jv)" and s: "?P k s"
    have r: "rd Jv k = Inr (Jv ! nat k)" using k by (simp add: rd_def)
    have "nat (k + 1) = Suc (nat k)" using k by simp
    then have t: "take (nat (k + 1)) Jv = take (nat k) Jv @ [Jv ! nat k]"
      using k by (simp add: take_Suc_conv_app_nth)
    show "\<exists>s'. ?body k s = Inr s' \<and> ?P (k + 1) s'"
      by (simp add: r t s)
  qed
  then show ?thesis by simp
qed

lemma row_of_concat:
  assumes wf: "wf_table T" and J: "J T = concat (map f [0..<nat (sizeT T)])"
    and Iq: "\<And>q. q \<le> nat (sizeT T) \<Longrightarrow> I T ! q = int (length (concat (map f [0..<q])))"
    and i: "i < nat (sizeT T)"
  shows "row T i = f i"
proof -
  let ?a = "length (concat (map f [0..<i]))"
  have "[0..<nat (sizeT T)] = [0..<i] @ i # [Suc i..<nat (sizeT T)]"
    using i by (metis less_imp_le_nat upt_add_eq_append upt_conv_Cons le0 le_add_diff_inverse)
  then have "J T = concat (map f [0..<i]) @ f i @ concat (map f [Suc i..<nat (sizeT T)])"
    using J by simp
  then have d: "drop ?a (J T) = f i @ concat (map f [Suc i..<nat (sizeT T)])" by simp
  have "I T ! (i + 1) - I T ! i = int (length (f i))" using Iq [of i] Iq [of "Suc i"] i by simp
  then show ?thesis using row_take_drop [OF wf i] Iq [of i] i d by simp
qed

lemma filter_concat_rows:
  "filter P (concat (map f [0..<n])) = concat (map (\<lambda>i. filter P (f i)) [0..<n])"
  by (induction n) simp_all

lemma length_concat_mono:
  "a \<le> b \<Longrightarrow> length (concat (map f [0..<a])) \<le> length (concat (map f [0..<b]))"
proof (induction b)
  case 0
  then show ?case by simp
next
  case (Suc b)
  then show ?case by (cases "a = Suc b") simp_all
qed

lemma Finalize_compacts:
  assumes wf: "wf_table T"
    and tr: "\<And>i. i < nat (sizeT T) \<Longrightarrow> unset_trails (row T i)"
    and ne: "- 1 \<in> set (J T)"
  shows "\<exists>T'. Finalize dbg T = Inr T' \<and> sizeT T' = sizeT T \<and> wf_table T' \<and>
           J T' = filter (\<lambda>c. c \<noteq> - 1) (J T) \<and>
           (\<forall>i < nat (sizeT T). row T' i = filter (\<lambda>c. c \<noteq> - 1) (row T i))"
proof -
  let ?sz = "nat (sizeT T)"
  let ?fr = "\<lambda>i. filter (\<lambda>c. c \<noteq> - 1) (row T i)"
  let ?off = "\<lambda>q. int (length (concat (map ?fr [0..<q])))"
  let ?sum = "int (length (filter (\<lambda>c. c \<noteq> - 1) (J T)))"
  have sz: "0 \<le> sizeT T" and lI: "length (I T) = ?sz + 1"
    and last: "I T ! ?sz = int (length (J T))" using wf by (simp_all add: wf_table_def)
  have filtJ: "filter (\<lambda>c. c \<noteq> - 1) (J T) = concat (map ?fr [0..<?sz])"
    using filter_concat_rows [of "\<lambda>c. c \<noteq> - 1" "row T" ?sz] by (simp only: rows_tile [OF wf])
  have sum_off: "?sum = ?off ?sz" using filtJ by simp
  have off_mono: "?off a \<le> ?off b" if "a \<le> b" for a b
    using length_concat_mono [OF that, of ?fr] by simp
  have off_Suc: "?off (Suc q) = ?off q + int (length (?fr q))" for q by simp
  have r0: "rd (I T) (sizeT T) = Inr (int (length (J T)))" using sz lI last by (simp add: rd_def)
  have "length (filter (\<lambda>c. c \<noteq> - 1) (J T)) \<noteq> length (J T)"
    using ne length_filter_less [of "- 1" "J T" "\<lambda>c. c \<noteq> - 1"] by simp
  then have neq: "?sum \<noteq> int (length (J T))" by simp
  let ?body = "\<lambda>i (Iv, NewJ, n, newI).
                 bnd (rd Iv (i + 1)) (\<lambda>end.
                 bnd (rd Iv i) (\<lambda>lo.
                 bnd (copy_row (J T) lo (nat (end - lo)) (NewJ, n)) (\<lambda>(NewJ', n').
                 bnd (wr Iv i newI) (\<lambda>Iv'.
                 Inr (Iv', NewJ', n', n')))))"
  let ?P = "\<lambda>i (st :: int list \<times> int list \<times> int \<times> int).
      (case st of (Iv, NewJ, n, newI) \<Rightarrow>
        length Iv = ?sz + 1 \<and> (\<forall>q < nat i. Iv ! q = ?off q) \<and>
        (\<forall>q. nat i \<le> q \<and> q \<le> ?sz \<longrightarrow> Iv ! q = I T ! q) \<and>
        NewJ = concat (map ?fr [0..<nat i]) @ replicate (nat ?sum - nat (?off (nat i))) 0 \<and>
        n = ?off (nat i) \<and> newI = ?off (nat i))"
  have "\<exists>s'. for_loop 0 (sizeT T) ?body (I T, new_int ?sum, 0, 0) = Inr s' \<and> ?P (sizeT T) s'"
  proof (rule for_loop_inv [where P = ?P])
    show "0 \<le> sizeT T" by (rule sz)
    show "?P 0 (I T, new_int ?sum, 0, 0)" using lI by (simp add: new_int_def)
  next
    fix k st assume k: "0 \<le> k" "k < sizeT T" and inv: "?P k st"
    obtain Iv NewJ n newI where st: "st = (Iv, NewJ, n, newI)" by (cases st)
    let ?m = "nat k"
    have m: "?m < ?sz" using k by simp
    from inv st have lIv: "length Iv = ?sz + 1"
      and lowq: "\<And>q. q < ?m \<Longrightarrow> Iv ! q = ?off q"
      and hiq: "\<And>q. ?m \<le> q \<Longrightarrow> q \<le> ?sz \<Longrightarrow> Iv ! q = I T ! q"
      and NJ: "NewJ = concat (map ?fr [0..<?m]) @ replicate (nat ?sum - nat (?off ?m)) 0"
      and n: "n = ?off ?m" and newI: "newI = ?off ?m" by auto
    note b = wf_row_bounds [OF wf m]
    have e: "rd Iv (k + 1) = Inr (I T ! (?m + 1))"
      using k lIv hiq [of "?m + 1"] by (simp add: rd_def nat_add_distrib)
    have l: "rd Iv k = Inr (I T ! ?m)" using k lIv hiq [of ?m] by (simp add: rd_def)
    have seg: "take (nat (I T ! (?m + 1) - I T ! ?m)) (drop (nat (I T ! ?m)) (J T)) = row T ?m"
      using row_take_drop [OF wf m] by simp
    have lseg: "length (row T ?m) = nat (I T ! (?m + 1) - I T ! ?m)" by (rule wf_row_length [OF wf m])
    have tw: "takeWhile (\<lambda>c. c \<noteq> - 1) (row T ?m) = ?fr ?m" by (rule unset_trails_filter [OF tr [OF m]])
    have le: "?off (Suc ?m) \<le> ?sum" unfolding sum_off using m by (intro off_mono) linarith
    have lNJ: "length NewJ = nat ?sum"
      using NJ le off_mono [of ?m "Suc ?m"] by (simp del: upt_Suc)
    have room: "nat n + length (takeWhile (\<lambda>c. c \<noteq> - 1) (row T ?m)) \<le> length NewJ"
      unfolding tw lNJ n using le by (simp del: upt_Suc add: off_Suc)
    have n0: "0 \<le> n" using n by simp
    note cr = copy_row_eq [OF b(1) seg lseg n0 room]
    let ?NewJ' = "take (nat n) NewJ @ ?fr ?m @ drop (nat n + length (?fr ?m)) NewJ"
    have cr': "copy_row (J T) (I T ! ?m) (nat (I T ! (?m + 1) - I T ! ?m)) (NewJ, n) =
        Inr (?NewJ', n + int (length (?fr ?m)))"
      using cr unfolding tw by simp
    have w: "wr Iv k newI = Inr (Iv[?m := newI])" using k lIv by (simp add: wr_def)
    have body: "?body k st = Inr (Iv[?m := newI], ?NewJ', n + int (length (?fr ?m)), n + int (length (?fr ?m)))"
      using cr' by (simp add: st e l w)
    have km: "nat (k + 1) = Suc ?m" using k by simp
    have tk: "take (nat n) NewJ = concat (map ?fr [0..<?m])" unfolding NJ n by simp
    have dr: "drop (nat n + length (?fr ?m)) NewJ = replicate (nat ?sum - nat (?off (Suc ?m))) 0"
      unfolding NJ n by (simp add: nat_add_distrib)
    have "?P (k + 1) (Iv[?m := newI], ?NewJ', n + int (length (?fr ?m)), n + int (length (?fr ?m)))"
      unfolding km
    proof (simp only: prod.case, intro conjI allI impI)
      show "length (Iv[?m := newI]) = ?sz + 1" using lIv by simp
      show "n + int (length (?fr ?m)) = ?off (Suc ?m)" using n by simp
      then show "n + int (length (?fr ?m)) = ?off (Suc ?m)" .
      show "?NewJ' = concat (map ?fr [0..<Suc ?m]) @ replicate (nat ?sum - nat (?off (Suc ?m))) 0"
        unfolding tk dr by simp
    next
      fix q assume "q < Suc ?m"
      moreover have "?m < length Iv" using m lIv by linarith
      ultimately show "Iv[?m := newI] ! q = ?off q"
        using lowq [of q] newI by (cases "q = ?m") simp_all
    next
      fix q assume "Suc ?m \<le> q \<and> q \<le> ?sz"
      then show "Iv[?m := newI] ! q = I T ! q" using hiq [of q] by simp
    qed
    with body show "\<exists>s'. ?body k st = Inr s' \<and> ?P (k + 1) s'" by blast
  qed
  then obtain s' where loop': "for_loop 0 (sizeT T) ?body (I T, new_int ?sum, 0, 0) = Inr s'"
    and fin': "?P (sizeT T) s'" by blast
  obtain Iv NewJ n newI where s': "s' = (Iv, NewJ, n, newI)" by (cases s')
  from fin' s' have lIv: "length Iv = ?sz + 1"
      and lowq: "\<And>q. q < ?sz \<Longrightarrow> Iv ! q = ?off q"
      and NJ: "NewJ = concat (map ?fr [0..<?sz]) @ replicate (nat ?sum - nat (?off ?sz)) 0"
      and n: "n = ?off ?sz" by auto
  have NJ': "NewJ = filter (\<lambda>c. c \<noteq> - 1) (J T)" using NJ sum_off filtJ by simp
  let ?T' = "T\<lparr>I := Iv[?sz := ?sum], J := NewJ\<rparr>"
  have w: "wr Iv (sizeT T) ?sum = Inr (Iv[?sz := ?sum])" using sz lIv by (simp add: wr_def)
  have nsum: "n = ?sum" using n sum_off by simp
  have fin: "Finalize dbg T = Inr ?T'"
    using neq by (simp add: Finalize_def r0 count_loop loop' s' w nsum)
  have Iq: "(Iv[?sz := ?sum]) ! q = ?off q" if "q \<le> ?sz" for q
    using that lowq [of q] lIv sum_off by (cases "q = ?sz") simp_all
  have "sorted (Iv[?sz := ?sum])"
    unfolding sorted_iff_nth_mono
  proof (intro allI impI)
    fix a b assume "a \<le> b" "b < length (Iv[?sz := ?sum])"
    then show "Iv[?sz := ?sum] ! a \<le> Iv[?sz := ?sum] ! b"
      using Iq [of a] Iq [of b] lIv off_mono [of a b] by simp
  qed
  then have wf': "wf_table ?T'"
    using sz lIv Iq [of 0] Iq [of ?sz] NJ' sum_off by (simp add: wf_table_def)
  have rows: "row ?T' i = ?fr i" if "i < ?sz" for i
  proof (rule row_of_concat [OF wf'])
    show "J ?T' = concat (map ?fr [0..<nat (sizeT ?T')])" using NJ' filtJ by simp
    show "i < nat (sizeT ?T')" using that by simp
    show "I ?T' ! q = int (length (concat (map ?fr [0..<q])))" if "q \<le> nat (sizeT ?T')" for q
      using Iq [of q] that by simp
  qed
  show ?thesis using fin wf' NJ' rows by auto
qed

lemma set_row_subset:
  assumes "wf_table T" "i < nat (sizeT T)"
  shows "set (row T i) \<subseteq> set (J T)"
  unfolding row_take_drop [OF assms]
  by (meson set_take_subset set_drop_subset subset_trans)

lemma Finalize_noop:
  assumes wf: "wf_table T" and ne: "- 1 \<notin> set (J T)"
  shows "Finalize dbg T = Inr T"
proof -
  have sz: "0 \<le> sizeT T" and lI: "length (I T) = nat (sizeT T) + 1"
    and last: "I T ! nat (sizeT T) = int (length (J T))" using wf by (simp_all add: wf_table_def)
  have r0: "rd (I T) (sizeT T) = Inr (int (length (J T)))" using sz lI last by (simp add: rd_def)
  have "filter (\<lambda>c. c \<noteq> - 1) (J T) = J T" using ne by (auto simp: filter_id_conv)
  then show ?thesis by (simp add: Finalize_def r0 count_loop)
qed

text \<open>
  Claim C6, as the code has it. On a well-formed table in whose rows the unset cells
  trail the set ones (the shape that fixed-degree allocation and \<^verbatim>\<open>Push\<close> leave),
  \<^verbatim>\<open>Finalize\<close> returns a well-formed table with the same rows count whose \<open>I[size]\<close> is
  the number of cells of the original other than \<open>-1\<close>, whose row \<open>i\<close> is row \<open>i\<close> of the
  original without its \<open>-1\<close> cells, in the original order, and which holds no \<open>-1\<close>;
  a table without \<open>-1\<close> is returned as it is.
\<close>

theorem Finalize_trailing:
  assumes "wf_table T" "\<forall>i < nat (sizeT T). unset_trails (row T i)"
  shows "\<exists>T'. Finalize dbg T = Inr T' \<and> wf_table T' \<and> sizeT T' = sizeT T \<and>
      I T' ! nat (sizeT T') = int (length (filter (\<lambda>c. c \<noteq> - 1) (J T))) \<and>
      (\<forall>i < nat (sizeT T). row T' i = filter (\<lambda>c. c \<noteq> - 1) (row T i)) \<and>
      - 1 \<notin> set (J T') \<and> (- 1 \<notin> set (J T) \<longrightarrow> T' = T)"
proof (cases "- 1 \<in> set (J T)")
  case True
  from assms(2) have tr: "\<And>i. i < nat (sizeT T) \<Longrightarrow> unset_trails (row T i)" by simp
  from Finalize_compacts [OF assms(1) tr True, of dbg]
  obtain T' where T': "Finalize dbg T = Inr T'" "sizeT T' = sizeT T" "wf_table T'"
    "J T' = filter (\<lambda>c. c \<noteq> - 1) (J T)"
    "\<forall>i < nat (sizeT T). row T' i = filter (\<lambda>c. c \<noteq> - 1) (row T i)" by blast
  have "I T' ! nat (sizeT T') = int (length (J T'))" using T'(3) by (simp add: wf_table_def)
  then show ?thesis using T' True by auto
next
  case False
  have rows: "filter (\<lambda>c. c \<noteq> - 1) (row T i) = row T i" if "i < nat (sizeT T)" for i
    using set_row_subset [OF assms(1) that] False by (auto simp: filter_id_conv)
  have "filter (\<lambda>c. c \<noteq> - 1) (J T) = J T" using False by (auto simp: filter_id_conv)
  moreover have "I T ! nat (sizeT T) = int (length (J T))" using assms(1) by (simp add: wf_table_def)
  ultimately show ?thesis using Finalize_noop [OF assms(1) False, of dbg] assms(1) False rows
    by simp
qed

theorem Finalize_trailing_witness:
  "wf_table \<lparr>sizeT = 2, I = [0, 2, 5], J = [4, - 1, 7, 3, - 1]\<rparr> \<and>
   unset_trails (row \<lparr>sizeT = 2, I = [0, 2, 5], J = [4, - 1, 7, 3, - 1]\<rparr> 0) \<and>
   unset_trails (row \<lparr>sizeT = 2, I = [0, 2, 5], J = [4, - 1, 7, 3, - 1]\<rparr> 1) \<and>
   Finalize True \<lparr>sizeT = 2, I = [0, 2, 5], J = [4, - 1, 7, 3, - 1]\<rparr> =
     Inr \<lparr>sizeT = 2, I = [0, 1, 3], J = [4, 7, 3]\<rparr>"
proof -
  let ?T = "\<lparr>sizeT = 2, I = [0, 2, 5], J = [4, - 1, 7, 3, - 1]\<rparr>"
  have w: "wf_table ?T" by (simp add: wf_table_def)
  have r0: "row ?T 0 = [4, - 1]" and r1: "row ?T 1 = [7, 3, - 1]" by code_simp+
  have u0: "unset_trails (row ?T 0)" unfolding r0 by (simp add: unset_trails_def)
  have u1: "unset_trails (row ?T 1)" unfolding r1 by (simp add: unset_trails_def)
  have u: "\<forall>i < nat (sizeT ?T). unset_trails (row ?T i)"
  proof (intro allI impI)
    fix i assume "i < nat (sizeT ?T)"
    then have "i = 0 \<or> i = 1" by auto
    then show "unset_trails (row ?T i)" using u0 u1 by auto
  qed
  from Finalize_trailing [OF w u, of True]
  obtain T' where "Finalize True ?T = Inr T'" by blast
  moreover have "Finalize True ?T = Inr \<lparr>sizeT = 2, I = [0, 1, 3], J = [4, 7, 3]\<rparr>" by code_simp
  ultimately show ?thesis using w u0 u1 by simp
qed

text \<open>
  The claim as the specification states it, for every table with unset cells, fails
  where a set cell follows an unset one: the copy loop of \<^verbatim>\<open>Finalize\<close> leaves a row at its
  first \<open>-1\<close>. Row \<open>0\<close> of the table below holds column \<open>5\<close> behind an unset cell; with
  \<^verbatim>\<open>MFEM_DEBUG\<close> the call is the fatal error (\<open>sum != n\<close>), without it row \<open>0\<close> of the
  result is empty.
\<close>

theorem Finalize_counterexample:
  "wf_table \<lparr>sizeT = 2, I = [0, 2, 4], J = [- 1, 5, 7, - 1]\<rparr> \<and>
   - 1 \<in> set (J \<lparr>sizeT = 2, I = [0, 2, 4], J = [- 1, 5, 7, - 1]\<rparr>) \<and>
   filter (\<lambda>c. c \<noteq> - 1) (row \<lparr>sizeT = 2, I = [0, 2, 4], J = [- 1, 5, 7, - 1]\<rparr> 0) = [5] \<and>
   Finalize True \<lparr>sizeT = 2, I = [0, 2, 4], J = [- 1, 5, 7, - 1]\<rparr> = Inl Fatal \<and>
   map_sum id (\<lambda>T'. row T' 0) (Finalize False \<lparr>sizeT = 2, I = [0, 2, 4], J = [- 1, 5, 7, - 1]\<rparr>)
     = Inr []"
proof -
  let ?T = "\<lparr>sizeT = 2, I = [0, 2, 4], J = [- 1, 5, 7, - 1]\<rparr>"
  have "wf_table ?T" by (simp add: wf_table_def)
  moreover have "filter (\<lambda>c. c \<noteq> - 1) (row ?T 0) = [5]" by code_simp
  moreover have "Finalize True ?T = Inl Fatal" by code_simp
  moreover have "map_sum id (\<lambda>T'. row T' 0) (Finalize False ?T) = Inr []" by code_simp
  ultimately show ?thesis by simp
qed

section \<open>DSTable: first-seen numbering\<close>

lemma seen_before_snoc_old: "p \<in> set hs \<Longrightarrow> seen_before (hs @ [x]) p = seen_before hs p"
  by (simp add: seen_before_def takeWhile_append1)

lemma seen_before_snoc_new: "p \<notin> set hs \<Longrightarrow> seen_before (hs @ [p]) p = int (card (set hs))"
proof -
  assume "p \<notin> set hs"
  then have "takeWhile (\<lambda>q. q \<noteq> p) (hs @ [p]) = hs @ takeWhile (\<lambda>q. q \<noteq> p) [p]"
    by (intro takeWhile_append2) auto
  then show ?thesis by (simp add: seen_before_def)
qed

lemma DSTable_Push_step:
  assumes inv: "DS_inv D hs" and r: "0 \<le> r" "r < NumRows D"
  shows "\<exists>D'. DSTable_Push dbg D r c = Inr (seen_before (hs @ [(r, c)]) (r, c), D') \<and>
           DS_inv D' (hs @ [(r, c)]) \<and> NumRows D' = NumRows D \<and>
           ((r, c) \<in> set hs \<longrightarrow> D' = D) \<and>
           NumEntries D' = NumEntries D + (if (r, c) \<in> set hs then 0 else 1)"
proof -
  have len: "length (Rows D) = nat (NumRows D)" and ne: "NumEntries D = int (card (set hs))"
    and cf: "\<And>r c. r < nat (NumRows D) \<Longrightarrow> chain_find (Rows D ! r) c =
          (if (int r, c) \<in> set hs then Some (seen_before hs (int r, c)) else None)"
    using inv by (simp_all add: DS_inv_def)
  have nr: "nat r < nat (NumRows D)" using r by simp
  have rd: "rd (Rows D) r = Inr (Rows D ! nat r)" using r len by (simp add: rd_def)
  have cfr: "chain_find (Rows D ! nat r) c =
          (if (r, c) \<in> set hs then Some (seen_before hs (r, c)) else None)"
    using cf [OF nr, of c] r by simp
  show ?thesis
  proof (cases "(r, c) \<in> set hs")
    case True
    have "DS_inv D (hs @ [(r, c)])"
      unfolding DS_inv_def
    proof (intro conjI allI impI)
      show "0 \<le> NumRows D" using r by simp
      show "length (Rows D) = nat (NumRows D)" by (rule len)
      have "set (hs @ [(r, c)]) = set hs" using True by auto
      then show "NumEntries D = int (card (set (hs @ [(r, c)])))" using ne by simp
    next
      fix r' c' assume r': "r' < nat (NumRows D)"
      show "chain_find (Rows D ! r') c' =
          (if (int r', c') \<in> set (hs @ [(r, c)]) then Some (seen_before (hs @ [(r, c)]) (int r', c')) else None)"
      proof (cases "(int r', c') \<in> set hs")
        case in_hs: True
        then show ?thesis using cf [OF r', of c'] by (simp add: seen_before_snoc_old)
      next
        case False
        with True have "(int r', c') \<noteq> (r, c)" by auto
        then show ?thesis using cf [OF r', of c'] False by auto
      qed
    qed
    then show ?thesis using True r rd cfr
      by (simp add: DSTable_Push_def seen_before_snoc_old)
  next
    case False
    let ?node = "\<lparr>Column = c, Index = NumEntries D\<rparr>"
    let ?Rows' = "(Rows D)[nat r := ?node # Rows D ! nat r]"
    let ?D' = "D\<lparr>Rows := ?Rows', NumEntries := NumEntries D + 1\<rparr>"
    have w: "wr (Rows D) r (?node # Rows D ! nat r) = Inr ?Rows'" using r len by (simp add: wr_def)
    have push: "DSTable_Push dbg D r c = Inr (NumEntries D, ?D')"
      using False r rd cfr w by (simp add: DSTable_Push_def)
    have idx: "seen_before (hs @ [(r, c)]) (r, c) = NumEntries D"
      using seen_before_snoc_new [OF False] ne by simp
    have "DS_inv ?D' (hs @ [(r, c)])"
      unfolding DS_inv_def
    proof (intro conjI allI impI)
      show "0 \<le> NumRows ?D'" using r by simp
      show "length (Rows ?D') = nat (NumRows ?D')" using len by simp
      show "NumEntries ?D' = int (card (set (hs @ [(r, c)])))" using ne False by simp
    next
      fix r' c' assume r': "r' < nat (NumRows ?D')"
      then have r'': "r' < nat (NumRows D)" by simp
      show "chain_find (Rows ?D' ! r') c' =
          (if (int r', c') \<in> set (hs @ [(r, c)]) then Some (seen_before (hs @ [(r, c)]) (int r', c')) else None)"
      proof (cases "(int r', c') = (r, c)")
        case True
        then have "r' = nat r" "c' = c" using r by auto
        then show ?thesis using idx len nr True by simp
      next
        case ne': False
        have "chain_find (Rows ?D' ! r') c' = chain_find (Rows D ! r') c'"
        proof (cases "r' = nat r")
          case True
          then have "c' \<noteq> c" using ne' r by auto
          then show ?thesis using True len nr by simp
        next
          case False
          then show ?thesis by simp
        qed
        then show ?thesis using cf [OF r'', of c'] ne'
          by (auto simp: seen_before_snoc_old)
      qed
    qed
    then show ?thesis using push idx False by (intro exI [of _ ?D']) simp
  qed
qed

lemma seen_before_append_old: "p \<in> set hs \<Longrightarrow> seen_before (hs @ xs) p = seen_before hs p"
  by (simp add: seen_before_def takeWhile_append1)

lemma DS_push_all_inv:
  assumes "DS_inv D hs" "\<forall>p \<in> set ps. 0 \<le> fst p \<and> fst p < NumRows D"
  shows "\<exists>D'. DS_push_all dbg D ps = Inr (map (seen_before (hs @ ps)) ps, D') \<and>
           DS_inv D' (hs @ ps) \<and> NumRows D' = NumRows D"
  using assms
proof (induction ps arbitrary: D hs)
  case Nil
  then show ?case by simp
next
  case (Cons p ps)
  obtain r c where p: "p = (r, c)" by (cases p)
  have r: "0 \<le> r" "r < NumRows D" using Cons.prems(2) p by auto
  from DSTable_Push_step [OF Cons.prems(1) r, of dbg c]
  obtain D1 where push: "DSTable_Push dbg D r c = Inr (seen_before (hs @ [(r, c)]) (r, c), D1)"
    and inv1: "DS_inv D1 (hs @ [(r, c)])" and nr1: "NumRows D1 = NumRows D" by blast
  have rng1: "\<forall>p \<in> set ps. 0 \<le> fst p \<and> fst p < NumRows D1" using Cons.prems(2) nr1 by simp
  from Cons.IH [OF inv1 rng1]
  obtain D' where rest: "DS_push_all dbg D1 ps = Inr (map (seen_before ((hs @ [(r, c)]) @ ps)) ps, D')"
    and inv': "DS_inv D' ((hs @ [(r, c)]) @ ps)" and nr': "NumRows D' = NumRows D1" by blast
  have "seen_before ((hs @ [(r, c)]) @ ps) (r, c) = seen_before (hs @ [(r, c)]) (r, c)"
    by (rule seen_before_append_old) simp
  then show ?case using push rest inv' nr' nr1 by (simp add: p)
qed

lemma DSTable_ctor_inv:
  assumes "0 \<le> nrows"
  shows "\<exists>D. DSTable_ctor nrows = Inr D \<and> DS_inv D [] \<and> NumRows D = nrows"
  using assms by (simp add: DSTable_ctor_def DS_inv_def)

lemma seen_before_less:
  assumes "p \<in> set ps"
  shows "0 \<le> seen_before ps p \<and> seen_before ps p < int (card (set ps))"
proof -
  have "p \<notin> set (takeWhile (\<lambda>q. q \<noteq> p) ps)" by (auto dest: set_takeWhileD)
  moreover have "set (takeWhile (\<lambda>q. q \<noteq> p) ps) \<subseteq> set ps" by (auto dest: set_takeWhileD)
  ultimately have "set (takeWhile (\<lambda>q. q \<noteq> p) ps) \<subset> set ps" using assms by blast
  then have "card (set (takeWhile (\<lambda>q. q \<noteq> p) ps)) < card (set ps)"
    by (intro psubset_card_mono) simp_all
  then show ?thesis by (simp add: seen_before_def)
qed

lemma seen_before_dense: "seen_before ps ` set ps = {0..<int (card (set ps))}"
proof (induction ps rule: rev_induct)
  case Nil
  then show ?case by simp
next
  case (snoc x ps)
  have old: "seen_before (ps @ [x]) ` set ps = seen_before ps ` set ps"
    by (intro image_cong) (simp_all add: seen_before_snoc_old)
  show ?case
  proof (cases "x \<in> set ps")
    case True
    then have "set (ps @ [x]) = set ps" by auto
    then show ?thesis using old snoc.IH by simp
  next
    case False
    have "seen_before (ps @ [x]) ` set (ps @ [x]) =
        insert (int (card (set ps))) (seen_before ps ` set ps)"
      using old seen_before_snoc_new [OF False] by simp
    also have "\<dots> = {0..<int (card (set ps)) + 1}" unfolding snoc.IH by auto
    finally show ?thesis using False by (simp add: add.commute)
  qed
qed

text \<open>
  Claim C7. Take the table that \<^verbatim>\<open>DSTable(nrows)\<close> builds and push any pairs \<open>ps\<close> with rows
  in range. Every push returns the first-seen number of its pair, so equal pairs get
  equal indices however often they are pushed; \<^verbatim>\<open>NumEntries\<close> ends as the number of
  distinct pairs; the indices returned are exactly \<open>0\<close> .. \<^verbatim>\<open>NumEntries\<close> \<open>- 1\<close>; and one
  more push adds \<open>1\<close> to \<^verbatim>\<open>NumEntries\<close> and returns the old \<^verbatim>\<open>NumEntries\<close> when its pair
  is new, and leaves the table as it is when the pair was pushed before.
\<close>

theorem DSTable_first_seen:
  assumes "0 \<le> nrows" "\<forall>p \<in> set ps. 0 \<le> fst p \<and> fst p < nrows"
  shows "\<exists>D0 idxs D. DSTable_ctor nrows = Inr D0 \<and> DS_push_all dbg D0 ps = Inr (idxs, D) \<and>
     length idxs = length ps \<and>
     (\<forall>k < length ps. idxs ! k = seen_before ps (ps ! k)) \<and>
     (\<forall>k < length ps. \<forall>k' < length ps. ps ! k = ps ! k' \<longrightarrow> idxs ! k = idxs ! k') \<and>
     NumEntries D = int (card (set ps)) \<and>
     set idxs = {0..<NumEntries D} \<and>
     (\<forall>r c. 0 \<le> r \<and> r < nrows \<longrightarrow>
        (\<exists>idx D'. DSTable_Push dbg D r c = Inr (idx, D') \<and>
           NumEntries D' = NumEntries D + (if (r, c) \<in> set ps then 0 else 1) \<and>
           ((r, c) \<in> set ps \<longrightarrow> D' = D \<and> idx = seen_before ps (r, c)) \<and>
           ((r, c) \<notin> set ps \<longrightarrow> idx = NumEntries D)))"
proof -
  from DSTable_ctor_inv [OF assms(1)]
  obtain D0 where D0: "DSTable_ctor nrows = Inr D0" "DS_inv D0 []" "NumRows D0 = nrows" by blast
  have rng: "\<forall>p \<in> set ps. 0 \<le> fst p \<and> fst p < NumRows D0" using assms(2) D0(3) by simp
  from DS_push_all_inv [OF D0(2) rng, of dbg]
  obtain D where run: "DS_push_all dbg D0 ps = Inr (map (seen_before ps) ps, D)"
    and inv: "DS_inv D ps" and nr: "NumRows D = nrows" using D0(3) by auto
  let ?idxs = "map (seen_before ps) ps"
  have ne: "NumEntries D = int (card (set ps))" using inv by (simp add: DS_inv_def)
  have dense: "set ?idxs = {0..<NumEntries D}" using seen_before_dense [of ps] ne by simp
  have next_push: "\<exists>idx D'. DSTable_Push dbg D r c = Inr (idx, D') \<and>
           NumEntries D' = NumEntries D + (if (r, c) \<in> set ps then 0 else 1) \<and>
           ((r, c) \<in> set ps \<longrightarrow> D' = D \<and> idx = seen_before ps (r, c)) \<and>
           ((r, c) \<notin> set ps \<longrightarrow> idx = NumEntries D)"
    if "0 \<le> r \<and> r < nrows" for r c
  proof -
    from that nr have r: "0 \<le> r" "r < NumRows D" by simp_all
    from DSTable_Push_step [OF inv r, of dbg c]
    obtain D' where st: "DSTable_Push dbg D r c = Inr (seen_before (ps @ [(r, c)]) (r, c), D')"
      "(r, c) \<in> set ps \<longrightarrow> D' = D"
      "NumEntries D' = NumEntries D + (if (r, c) \<in> set ps then 0 else 1)" by blast
    have "(r, c) \<in> set ps \<Longrightarrow> seen_before (ps @ [(r, c)]) (r, c) = seen_before ps (r, c)"
      by (rule seen_before_snoc_old)
    moreover have "(r, c) \<notin> set ps \<Longrightarrow> seen_before (ps @ [(r, c)]) (r, c) = NumEntries D"
      using seen_before_snoc_new [of "(r, c)" ps] ne by simp
    ultimately show ?thesis using st by auto
  qed
  have A: "length ?idxs = length ps" by simp
  have B: "\<forall>k < length ps. ?idxs ! k = seen_before ps (ps ! k)" by simp
  have C: "\<forall>k < length ps. \<forall>k' < length ps. ps ! k = ps ! k' \<longrightarrow> ?idxs ! k = ?idxs ! k'" by simp
  have E: "\<forall>r c. 0 \<le> r \<and> r < nrows \<longrightarrow>
        (\<exists>idx D'. DSTable_Push dbg D r c = Inr (idx, D') \<and>
           NumEntries D' = NumEntries D + (if (r, c) \<in> set ps then 0 else 1) \<and>
           ((r, c) \<in> set ps \<longrightarrow> D' = D \<and> idx = seen_before ps (r, c)) \<and>
           ((r, c) \<notin> set ps \<longrightarrow> idx = NumEntries D))"
    using next_push by blast
  from D0(1) run A B C ne dense E show ?thesis by blast
qed

theorem DSTable_first_seen_witness:
  "(0::int) \<le> 3 \<and>
   map_sum id (\<lambda>(idxs, D). (idxs, NumEntries D))
     (bnd (DSTable_ctor 3) (\<lambda>D0. DS_push_all True D0 [(0, 1), (1, 2), (0, 1), (2, 0), (1, 2)]))
   = Inr ([0, 1, 0, 2, 1], 3)"
proof -
  let ?ps = "[(0, 1), (1, 2), (0, 1), (2, 0), (1, 2)] :: (int \<times> int) list"
  have h1: "(0::int) \<le> 3" by simp
  have h2: "\<forall>p \<in> set ?ps. 0 \<le> fst p \<and> fst p < 3" by simp
  from DSTable_first_seen [OF h1 h2, of True]
  obtain D0 idxs D where "DSTable_ctor 3 = Inr D0" "DS_push_all True D0 ?ps = Inr (idxs, D)"
    "length idxs = length ?ps" by blast
  have "map_sum id (\<lambda>(idxs, D). (idxs, NumEntries D))
     (bnd (DSTable_ctor 3) (\<lambda>D0. DS_push_all True D0 ?ps)) = Inr ([0, 1, 0, 2, 1], 3)"
    by code_simp
  then show ?thesis by simp
qed

section \<open>Transpose\<close>

lemma col_start_Suc: "col_start Jv (r + 1) = col_start Jv r + col_seen Jv (length Jv) r"
  unfolding col_start_def col_seen_def
  by (induction Jv) auto

lemma col_start_mono: "a \<le> b \<Longrightarrow> col_start Jv a \<le> col_start Jv b"
  unfolding col_start_def
  by (induction Jv) auto

lemma col_start_zero: "\<forall>c \<in> set Jv. 0 \<le> c \<Longrightarrow> col_start Jv 0 = 0"
  unfolding col_start_def by (induction Jv) auto

lemma col_start_all: "\<forall>c \<in> set Jv. c < w \<Longrightarrow> col_start Jv w = int (length Jv)"
  unfolding col_start_def by (induction Jv) auto

lemma col_seen_step:
  "k < length Jv \<Longrightarrow> col_seen Jv (Suc k) c = col_seen Jv k c + (if Jv ! k = c then 1 else 0)"
  by (simp add: col_seen_def take_Suc_conv_app_nth)

lemma col_seen_mono: "a \<le> b \<Longrightarrow> col_seen Jv a c \<le> col_seen Jv b c"
proof (induction b)
  case 0
  then show ?case by simp
next
  case (Suc b)
  show ?case
  proof (cases "a = Suc b")
    case True
    then show ?thesis by simp
  next
    case False
    with Suc have ih: "col_seen Jv a c \<le> col_seen Jv b c" by simp
    show ?thesis
    proof (cases "b < length Jv")
      case True
      then show ?thesis using ih by (simp add: col_seen_step)
    next
      case False
      then show ?thesis using ih by (simp add: col_seen_def)
    qed
  qed
qed

lemma col_seen_less:
  assumes "k < length Jv" "Jv ! k = c" "k < b"
  shows "col_seen Jv k c < col_seen Jv b c"
proof -
  have "col_seen Jv (Suc k) c = col_seen Jv k c + 1" using assms by (simp add: col_seen_step)
  moreover have "col_seen Jv (Suc k) c \<le> col_seen Jv b c" using assms(3) by (intro col_seen_mono) simp
  ultimately show ?thesis by simp
qed

lemma dest_bounds:
  assumes "k < length Jv"
  shows "col_start Jv (Jv ! k) \<le> dest Jv k" "dest Jv k < col_start Jv (Jv ! k + 1)"
proof -
  have "0 \<le> col_seen Jv k (Jv ! k)" by (simp add: col_seen_def)
  then show "col_start Jv (Jv ! k) \<le> dest Jv k" by (simp add: dest_def)
  have "col_seen Jv k (Jv ! k) < col_seen Jv (length Jv) (Jv ! k)"
    using assms by (intro col_seen_less) simp_all
  then show "dest Jv k < col_start Jv (Jv ! k + 1)" by (simp add: dest_def col_start_Suc)
qed

lemma dest_inj:
  assumes "k < length Jv" "k' < length Jv" "k \<noteq> k'"
  shows "dest Jv k \<noteq> dest Jv k'"
proof -
  have main: "dest Jv a \<noteq> dest Jv b" if ab: "a < b" "b < length Jv" for a b
  proof (cases "Jv ! a = Jv ! b")
    case True
    have "col_seen Jv a (Jv ! a) < col_seen Jv b (Jv ! a)" using ab by (intro col_seen_less) simp_all
    then show ?thesis using True by (simp add: dest_def)
  next
    case False
    have a: "a < length Jv" using ab by simp
    show ?thesis
    proof (cases "Jv ! a < Jv ! b")
      case True
      then have "col_start Jv (Jv ! a + 1) \<le> col_start Jv (Jv ! b)" by (intro col_start_mono) simp
      then show ?thesis using dest_bounds(2) [OF a] dest_bounds(1) [OF ab(2)] by linarith
    next
      case f: False
      with False have "Jv ! b < Jv ! a" by simp
      then have "col_start Jv (Jv ! b + 1) \<le> col_start Jv (Jv ! a)" by (intro col_start_mono) simp
      then show ?thesis using dest_bounds(2) [OF ab(2)] dest_bounds(1) [OF a] by linarith
    qed
  qed
  show ?thesis
  proof (cases "k < k'")
    case True
    then show ?thesis using main [of k k'] assms by simp
  next
    case False
    then have "k' < k" using assms(3) by simp
    then show ?thesis using main [of k' k] assms by simp
  qed
qed

lemma dest_onto:
  assumes q: "col_start Jv c \<le> q" "q < col_start Jv (c + 1)"
  shows "\<exists>k < length Jv. Jv ! k = c \<and> dest Jv k = q"
proof -
  let ?K = "{k. k < length Jv \<and> Jv ! k = c}"
  let ?B = "{col_start Jv c ..< col_start Jv (c + 1)}"
  have fin: "finite ?K" by simp
  have inj: "inj_on (dest Jv) ?K"
    unfolding inj_on_def using dest_inj by blast
  have sub: "dest Jv ` ?K \<subseteq> ?B"
    using dest_bounds by auto
  have "card ?K = length (filter (\<lambda>x. x = c) Jv)"
    by (simp add: length_filter_conv_card)
  also have "int \<dots> = col_seen Jv (length Jv) c" by (simp add: col_seen_def)
  finally have "int (card ?K) = col_start Jv (c + 1) - col_start Jv c" by (simp add: col_start_Suc)
  then have "card ?K = card ?B" by simp
  then have "card (dest Jv ` ?K) = card ?B" using inj by (simp add: card_image)
  then have "dest Jv ` ?K = ?B" using sub by (intro card_subset_eq) simp_all
  moreover have "q \<in> ?B" using q by simp
  ultimately have "q \<in> dest Jv ` ?K" by simp
  then show ?thesis by auto
qed

lemma SetDims_ok:
  assumes "alloc_ok T" "0 \<le> rows" "0 \<le> nnz"
  shows "\<exists>T'. SetDims T rows nnz = Inr T' \<and> sizeT T' = rows \<and> length (I T') = nat rows + 1 \<and>
           length (J T') = nat nnz \<and> I T' ! nat rows = nnz"
proof -
  let ?j = "if I T \<noteq> [] then I T ! nat (sizeT T) else 0"
  have rj: "(if I T \<noteq> [] then rd (I T) (sizeT T) else Inr 0) = Inr ?j"
    using assms(1) by (auto simp: alloc_ok_def rd_def split: if_splits)
  let ?T1 = "if sizeT T \<noteq> rows
               then T\<lparr>sizeT := rows, I := (if rows \<ge> 0 then new_int (rows + 1) else [])\<rparr>
               else T"
  let ?T2 = "if ?j \<noteq> nnz then ?T1\<lparr>J := (if nnz > 0 then new_int nnz else [])\<rparr> else ?T1"
  have s2: "sizeT ?T2 = rows" by simp
  have lI: "length (I ?T2) = nat rows + 1"
    using assms(1,2) by (auto simp: alloc_ok_def new_int_def nat_add_distrib split: if_splits)
  have lJ: "length (J ?T2) = nat nnz"
    using assms(1,3) by (auto simp: alloc_ok_def new_int_def split: if_splits)
  let ?I1 = "(I ?T2)[0 := 0]"
  let ?I2 = "?I1[nat rows := nnz]"
  have w1: "wr (I ?T2) 0 0 = Inr ?I1" using lI by (simp add: wr_def)
  have w2: "wr ?I1 rows nnz = Inr ?I2" using lI assms(2) by (simp add: wr_def)
  have "SetDims T rows nnz = Inr (?T2\<lparr>I := ?I2\<rparr>)"
    unfolding SetDims_def rj bnd_Inr Let_def using assms(2) w1 w2 s2
    by (simp only: if_True bnd_Inr)
  moreover have "sizeT (?T2\<lparr>I := ?I2\<rparr>) = rows" by simp
  moreover have "length (I (?T2\<lparr>I := ?I2\<rparr>)) = nat rows + 1" using lI by simp
  moreover have "length (J (?T2\<lparr>I := ?I2\<rparr>)) = nat nnz" using lJ by simp
  moreover have "I (?T2\<lparr>I := ?I2\<rparr>) ! nat rows = nnz" using lI by simp
  ultimately show ?thesis by blast
qed

lemma wrap_id: "- 2147483648 \<le> x \<Longrightarrow> x \<le> 2147483647 \<Longrightarrow> wrap x = x"
  by (simp add: wrap_def)

lemma wrap_add_left: "wrap (wrap a + b) = wrap (a + b)"
  by (simp add: wrap_def mod_add_left_eq add.assoc add.commute [of 2147483648 b])

lemma wrap_add_right: "wrap (a + wrap b) = wrap (a + b)"
  by (simp add: wrap_def mod_add_right_eq add.assoc)

lemma Width_max:
  assumes "wf_table T"
  shows "\<exists>wd. Width T = Inr (wrap (wd + 1)) \<and> - 1 \<le> wd \<and> (\<forall>c \<in> set (J T). c \<le> wd) \<and>
           (wd = - 1 \<or> wd \<in> set (J T))"
proof -
  have sz: "0 \<le> sizeT T" and lI: "length (I T) = nat (sizeT T) + 1"
    and last: "I T ! nat (sizeT T) = int (length (J T))" using assms by (simp_all add: wf_table_def)
  have r0: "rd (I T) (sizeT T) = Inr (int (length (J T)))" using sz lI last by (simp add: rd_def)
  let ?body = "\<lambda>k width. bnd (rd (J T) k) (\<lambda>c. Inr (if c > width then c else width))"
  let ?P = "\<lambda>k (w::int). - 1 \<le> w \<and> (\<forall>c \<in> set (take (nat k) (J T)). c \<le> w) \<and>
              (w = - 1 \<or> w \<in> set (J T))"
  have "\<exists>s'. for_loop 0 (int (length (J T))) ?body (- 1) = Inr s' \<and> ?P (int (length (J T))) s'"
  proof (rule for_loop_inv [where P = ?P])
    show "0 \<le> int (length (J T))" by simp
    show "?P 0 (- 1)" by simp
  next
    fix k s assume k: "0 \<le> k" "k < int (length (J T))" and s: "?P k s"
    have r: "rd (J T) k = Inr (J T ! nat k)" using k by (simp add: rd_def)
    have "nat (k + 1) = Suc (nat k)" using k by simp
    then have t: "take (nat (k + 1)) (J T) = take (nat k) (J T) @ [J T ! nat k]"
      using k by (simp add: take_Suc_conv_app_nth)
    have mem: "J T ! nat k \<in> set (J T)" using k by simp
    show "\<exists>s'. ?body k s = Inr s' \<and> ?P (k + 1) s'"
      using s mem unfolding r t by (auto simp del: nth_mem)
  qed
  then obtain wd where "for_loop 0 (int (length (J T))) ?body (- 1) = Inr wd" "?P (int (length (J T))) wd"
    by blast
  then show ?thesis
    by (intro exI [of _ wd]) (auto simp: Width_def r0)
qed

lemma Width_total: "wf_table T \<Longrightarrow> \<exists>w. Width T = Inr w"
  using Width_max by blast

lemma Width_ok:
  assumes "wf_table T" "\<forall>c \<in> set (J T). c < 2147483647"
  shows "\<exists>w. Width T = Inr w \<and> 0 \<le> w \<and> (\<forall>c \<in> set (J T). c < w) \<and>
           (w = 0 \<or> w - 1 \<in> set (J T))"
proof -
  from Width_max [OF assms(1)] obtain wd where wd: "Width T = Inr (wrap (wd + 1))" "- 1 \<le> wd"
    "\<forall>c \<in> set (J T). c \<le> wd" "wd = - 1 \<or> wd \<in> set (J T)" by blast
  have "wd < 2147483647" using wd(2,4) assms(2) by auto
  then have "wrap (wd + 1) = wd + 1" using wd(2) by (intro wrap_id) simp_all
  then show ?thesis using wd by (intro exI [of _ "wd + 1"]) auto
qed

lemma for_down_inv:
  assumes "lo \<le> hi" "P hi s"
    and "\<And>k s. lo < k \<Longrightarrow> k \<le> hi \<Longrightarrow> P k s \<Longrightarrow> \<exists>s'. body k s = Inr s' \<and> P (k - 1) s'"
  shows "\<exists>s'. for_down hi lo body s = Inr s' \<and> P lo s'"
proof -
  let ?xs = "map (\<lambda>d. hi - int d) [0..<nat (hi - lo)]"
  have "\<exists>s'. foldM body ?xs s = Inr s' \<and> P (hi - int (length ?xs)) s'"
  proof (rule foldM_inv [where P = "\<lambda>n. P (hi - int n)"])
    show "P (hi - int 0) s" using assms(2) by simp
  next
    fix n s assume n: "n < length ?xs" and p: "P (hi - int n) s"
    have "\<exists>s'. body (hi - int n) s = Inr s' \<and> P (hi - int n - 1) s'"
      using n p by (intro assms(3)) simp_all
    then show "\<exists>s'. body (?xs ! n) s = Inr s' \<and> P (hi - int (Suc n)) s'"
      using n by (simp add: algebra_simps)
  qed
  then show ?thesis using assms(1) by (simp add: for_down_def)
qed

lemma zero_loop:
  assumes "length a = nat n" "0 \<le> n"
  shows "for_loop 0 n (\<lambda>i i_At. wr i_At i 0) a = Inr (replicate (nat n) (0::int))"
proof -
  have "n \<le> int (length a)" using assms by simp
  from fill_loop [where lo = 0 and hi = n and a = a and v = 0, OF _ assms(2) this]
  obtain b where b: "for_loop 0 n (\<lambda>j Jw. wr Jw j 0) a = Inr b" "length b = length a"
    "\<forall>q < length a. b ! q = (if 0 \<le> int q \<and> int q < n then 0 else a ! q)" by auto
  have "b = replicate (nat n) 0"
  proof (rule nth_equalityI)
    show "length b = length (replicate (nat n) (0::int))" using b(2) assms(1) by simp
    fix q assume "q < length b"
    then have q: "q < nat n" using b(2) assms(1) by simp
    then have "int q < n" by linarith
    then show "b ! q = replicate (nat n) 0 ! q" using b(3) assms(1) q by simp
  qed
  with b(1) show ?thesis by simp
qed

lemma hist_loop:
  assumes rng: "\<forall>c \<in> set Jv. 0 \<le> c \<and> c < ncols" and nc: "0 \<le> ncols"
  shows "\<exists>a. for_loop 0 (int (length Jv))
             (\<lambda>i i_At. bnd (rd Jv i) (\<lambda>c.
                        bnd (rd i_At (c + 1)) (\<lambda>v. wr i_At (c + 1) (v + 1))))
             (replicate (nat (ncols + 1)) 0) = Inr a \<and>
           length a = nat (ncols + 1) \<and> a ! 0 = 0 \<and>
           (\<forall>c. 0 \<le> c \<and> c < ncols \<longrightarrow> a ! nat (c + 1) = col_seen Jv (length Jv) c)"
proof -
  let ?body = "\<lambda>i i_At. bnd (rd Jv i) (\<lambda>c.
                        bnd (rd i_At (c + 1)) (\<lambda>v. wr i_At (c + 1) (v + 1)))"
  let ?P = "\<lambda>k (a :: int list). length a = nat (ncols + 1) \<and> a ! 0 = 0 \<and>
           (\<forall>c. 0 \<le> c \<and> c < ncols \<longrightarrow> a ! nat (c + 1) = col_seen Jv (nat k) c)"
  have "\<exists>s'. for_loop 0 (int (length Jv)) ?body (replicate (nat (ncols + 1)) 0) = Inr s' \<and>
          ?P (int (length Jv)) s'"
  proof (rule for_loop_inv [where P = ?P])
    show "0 \<le> int (length Jv)" by simp
    show "?P 0 (replicate (nat (ncols + 1)) 0)" using nc by (auto simp: col_seen_def)
  next
    fix k a assume k: "0 \<le> k" "k < int (length Jv)" and inv: "?P k a"
    let ?c = "Jv ! nat k"
    have kl: "nat k < length Jv" using k by simp
    then have c: "0 \<le> ?c" "?c < ncols" using rng by auto
    have la: "length a = nat (ncols + 1)" using inv by simp
    have r1: "rd Jv k = Inr ?c" using k by (simp add: rd_def)
    have r2: "rd a (?c + 1) = Inr (a ! nat (?c + 1))" using c la by (simp add: rd_def)
    have w: "wr a (?c + 1) (a ! nat (?c + 1) + 1) = Inr (a[nat (?c + 1) := a ! nat (?c + 1) + 1])"
      using c la by (simp add: wr_def)
    have body: "?body k a = Inr (a[nat (?c + 1) := a ! nat (?c + 1) + 1])"
      by (simp add: r1 r2 w)
    have km: "nat (k + 1) = Suc (nat k)" using k by simp
    have "?P (k + 1) (a[nat (?c + 1) := a ! nat (?c + 1) + 1])"
      unfolding km
    proof (intro conjI allI impI)
      show "length (a[nat (?c + 1) := a ! nat (?c + 1) + 1]) = nat (ncols + 1)" using la by simp
      show "a[nat (?c + 1) := a ! nat (?c + 1) + 1] ! 0 = 0" using inv c by simp
    next
      fix c' assume c': "0 \<le> c' \<and> c' < ncols"
      have old: "a ! nat (c' + 1) = col_seen Jv (nat k) c'" using inv c' by simp
      show "a[nat (?c + 1) := a ! nat (?c + 1) + 1] ! nat (c' + 1) = col_seen Jv (Suc (nat k)) c'"
      proof (cases "c' = ?c")
        case True
        then show ?thesis using old c la kl by (simp add: col_seen_step)
      next
        case False
        then have "nat (c' + 1) \<noteq> nat (?c + 1)" using c c' by simp
        then show ?thesis using old False kl by (simp add: col_seen_step)
      qed
    qed
    with body show "\<exists>s'. ?body k a = Inr s' \<and> ?P (k + 1) s'" by blast
  qed
  then show ?thesis by simp
qed

lemma prefix_loop:
  assumes la: "length a = nat (ncols + 1)" and a0: "a ! 0 = 0"
    and ac: "\<forall>c. 0 \<le> c \<and> c < ncols \<longrightarrow> a ! nat (c + 1) = col_seen Jv (length Jv) c"
    and pos: "\<forall>c \<in> set Jv. 0 \<le> c" and nc: "0 \<le> ncols"
  shows "\<exists>b. for_loop 1 ncols
             (\<lambda>i i_At. bnd (rd i_At (i + 1)) (\<lambda>a.
                        bnd (rd i_At i) (\<lambda>b. wr i_At (i + 1) (a + b)))) a = Inr b \<and>
           length b = nat (ncols + 1) \<and>
           (\<forall>q. 0 \<le> q \<and> q \<le> ncols \<longrightarrow> b ! nat q = col_start Jv q)"
proof (cases "ncols < 1")
  case True
  with nc have z: "ncols = 0" by simp
  have "a ! nat q = col_start Jv q" if "0 \<le> q \<and> q \<le> ncols" for q
  proof -
    from that z have "q = 0" by simp
    then show ?thesis using a0 col_start_zero [OF pos] by simp
  qed
  then show ?thesis using la z by (simp add: for_loop_empty)
next
  case False
  then have nc1: "1 \<le> ncols" by simp
  let ?body = "\<lambda>i i_At. bnd (rd i_At (i + 1)) (\<lambda>a.
                        bnd (rd i_At i) (\<lambda>b. wr i_At (i + 1) (a + b)))"
  let ?P = "\<lambda>i (b :: int list). length b = nat (ncols + 1) \<and>
      (\<forall>q. 0 \<le> q \<and> q \<le> i \<longrightarrow> b ! nat q = col_start Jv q) \<and>
      (\<forall>q. i < q \<and> q \<le> ncols \<longrightarrow> b ! nat q = col_seen Jv (length Jv) (q - 1))"
  have "\<exists>s'. for_loop 1 ncols ?body a = Inr s' \<and> ?P ncols s'"
  proof (rule for_loop_inv [where P = ?P])
    show "1 \<le> ncols" by (rule nc1)
    show "?P 1 a"
    proof (intro conjI allI impI)
      show "length a = nat (ncols + 1)" by (rule la)
    next
      fix q :: int assume q: "0 \<le> q \<and> q \<le> 1"
      then have "q = 0 \<or> q = 1" by auto
      then show "a ! nat q = col_start Jv q"
      proof
        assume "q = 0"
        then show ?thesis using a0 col_start_zero [OF pos] by simp
      next
        assume q1: "q = 1"
        have "0 \<le> (0::int) \<and> 0 < ncols" using nc1 by simp
        with ac have "a ! nat (0 + 1) = col_seen Jv (length Jv) 0" by blast
        then show ?thesis using q1 col_start_Suc [of Jv 0] col_start_zero [OF pos] by simp
      qed
    next
      fix q :: int assume q: "1 < q \<and> q \<le> ncols"
      then show "a ! nat q = col_seen Jv (length Jv) (q - 1)" using ac [rule_format, of "q - 1"] by simp
    qed
  next
    fix k b assume k: "1 \<le> k" "k < ncols" and inv: "?P k b"
    have lb: "length b = nat (ncols + 1)" using inv by simp
    have bk: "b ! nat k = col_start Jv k" using inv k by simp
    have bk1: "b ! nat (k + 1) = col_seen Jv (length Jv) k" using inv k by simp
    have r1: "rd b (k + 1) = Inr (col_seen Jv (length Jv) k)" using k lb bk1 by (simp add: rd_def)
    have r2: "rd b k = Inr (col_start Jv k)" using k lb bk by (simp add: rd_def)
    let ?b' = "b[nat (k + 1) := col_seen Jv (length Jv) k + col_start Jv k]"
    have w: "wr b (k + 1) (col_seen Jv (length Jv) k + col_start Jv k) = Inr ?b'"
      using k lb by (simp add: wr_def)
    have body: "?body k b = Inr ?b'" by (simp add: r1 r2 w)
    have "?P (k + 1) ?b'"
    proof (intro conjI allI impI)
      show "length ?b' = nat (ncols + 1)" using lb by simp
    next
      fix q :: int assume q: "0 \<le> q \<and> q \<le> k + 1"
      show "?b' ! nat q = col_start Jv q"
      proof (cases "q = k + 1")
        case True
        then show ?thesis using k lb by (simp add: col_start_Suc)
      next
        case False
        then have "nat q \<noteq> nat (k + 1)" using q k by simp
        then show ?thesis using inv q False by simp
      qed
    next
      fix q :: int assume q: "k + 1 < q \<and> q \<le> ncols"
      then have "nat q \<noteq> nat (k + 1)" using k by linarith
      then show "?b' ! nat q = col_seen Jv (length Jv) (q - 1)" using inv q by simp
    qed
    with body show "\<exists>s'. ?body k b = Inr s' \<and> ?P (k + 1) s'" by blast
  qed
  then show ?thesis by auto
qed

lemma shift_loop:
  fixes f :: "int \<Rightarrow> int"
  assumes la: "length a = nat (ncols + 1)" and nc: "0 \<le> ncols"
    and aq: "\<forall>q. 0 \<le> q \<and> q < ncols \<longrightarrow> a ! nat q = f (q + 1)"
  shows "\<exists>b. for_down ncols 0 (\<lambda>i i_At. bnd (rd i_At (i - 1)) (\<lambda>v. wr i_At i v)) a = Inr b \<and>
           length b = nat (ncols + 1) \<and> (\<forall>q. 0 < q \<and> q \<le> ncols \<longrightarrow> b ! nat q = f q)"
proof -
  let ?body = "\<lambda>i i_At. bnd (rd i_At (i - 1)) (\<lambda>v. wr i_At i v)"
  let ?P = "\<lambda>k (b :: int list). length b = nat (ncols + 1) \<and>
      (\<forall>q. k < q \<and> q \<le> ncols \<longrightarrow> b ! nat q = f q) \<and>
      (\<forall>q. 0 \<le> q \<and> q \<le> k \<and> q < ncols \<longrightarrow> b ! nat q = f (q + 1))"
  have "\<exists>s'. for_down ncols 0 ?body a = Inr s' \<and> ?P 0 s'"
  proof (rule for_down_inv [where P = ?P])
    show "0 \<le> ncols" by (rule nc)
    show "?P ncols a" using la aq by auto
  next
    fix k b assume k: "0 < k" "k \<le> ncols" and inv: "?P k b"
    have lb: "length b = nat (ncols + 1)" using inv by simp
    have bk: "b ! nat (k - 1) = f k" using inv k by (auto dest: spec [of _ "k - 1"])
    have r: "rd b (k - 1) = Inr (f k)" using k lb bk by (simp add: rd_def)
    have w: "wr b k (f k) = Inr (b[nat k := f k])" using k lb by (simp add: wr_def)
    have body: "?body k b = Inr (b[nat k := f k])" by (simp add: r w)
    have "?P (k - 1) (b[nat k := f k])"
    proof (intro conjI allI impI)
      show "length (b[nat k := f k]) = nat (ncols + 1)" using lb by simp
    next
      fix q :: int assume q: "k - 1 < q \<and> q \<le> ncols"
      show "b[nat k := f k] ! nat q = f q"
      proof (cases "q = k")
        case True
        then show ?thesis using k lb by simp
      next
        case False
        then have "nat q \<noteq> nat k" using q k by simp
        then show ?thesis using inv q False by simp
      qed
    next
      fix q :: int assume q: "0 \<le> q \<and> q \<le> k - 1 \<and> q < ncols"
      then have "nat q \<noteq> nat k" using k by linarith
      then show "b[nat k := f k] ! nat q = f (q + 1)" using inv q by simp
    qed
    with body show "\<exists>s'. ?body k b = Inr s' \<and> ?P (k - 1) s'" by blast
  qed
  then show ?thesis by auto
qed

lemma row_unique:
  assumes wf: "wf_table T" and r: "r < nat (sizeT T)" and i: "i < nat (sizeT T)"
    and kr: "I T ! r \<le> k" "k < I T ! (r + 1)" and ki: "I T ! i \<le> k" "k < I T ! (i + 1)"
  shows "r = i"
proof (rule ccontr)
  assume ne: "r \<noteq> i"
  have len: "length (I T) = nat (sizeT T) + 1" and s: "sorted (I T)"
    using wf by (simp_all add: wf_table_def)
  show False
  proof (cases "r < i")
    case True
    then have "I T ! (r + 1) \<le> I T ! i" using s len i by (intro sorted_nth_mono) simp_all
    then show False using kr ki by linarith
  next
    case False
    with ne have "i < r" by simp
    then have "I T ! (i + 1) \<le> I T ! r" using s len r by (intro sorted_nth_mono) simp_all
    then show False using kr ki by linarith
  qed
qed

lemma col_start_le: "col_start Jv r \<le> int (length Jv)"
  by (simp add: col_start_def)

lemma scatter_loop:
  assumes wf: "wf_table A" and rng: "\<forall>c \<in> set (J A). 0 \<le> c \<and> c < ncols" and nc: "0 \<le> ncols"
    and la: "length a = nat (ncols + 1)"
    and aq: "\<forall>q. 0 \<le> q \<and> q \<le> ncols \<longrightarrow> a ! nat q = col_start (J A) q"
    and lj: "length j0 = length (J A)"
  shows "\<exists>a' j'. for_loop 0 (sizeT A)
             (\<lambda>i st. bnd (rd (I A) i) (\<lambda>lo.
                      bnd (rd (I A) (i + 1)) (\<lambda>hi.
                      for_loop lo hi
                        (\<lambda>j (i_At, j_At).
                           bnd (rd (J A) j) (\<lambda>c.
                           bnd (rd i_At c) (\<lambda>p.
                           bnd (wr i_At c (p + 1)) (\<lambda>i_At'.
                           bnd (wr j_At p i) (\<lambda>j_At'.
                           Inr (i_At', j_At')))))) st)))
             (a, j0) = Inr (a', j') \<and>
           length a' = nat (ncols + 1) \<and> length j' = length (J A) \<and>
           (\<forall>c. 0 \<le> c \<and> c < ncols \<longrightarrow> a' ! nat c = col_start (J A) (c + 1)) \<and>
           (\<forall>r k. r < nat (sizeT A) \<and> nat (I A ! r) \<le> k \<and> k < nat (I A ! (r + 1)) \<longrightarrow>
              j' ! nat (dest (J A) k) = int r)"
proof -
  let ?Jv = "J A"
  let ?inner = "\<lambda>i j (i_At, j_At).
                           bnd (rd (J A) j) (\<lambda>c.
                           bnd (rd i_At c) (\<lambda>p.
                           bnd (wr i_At c (p + 1)) (\<lambda>i_At'.
                           bnd (wr j_At p i) (\<lambda>j_At'.
                           Inr (i_At', j_At')))))"
  let ?outer = "\<lambda>i st. bnd (rd (I A) i) (\<lambda>lo.
                      bnd (rd (I A) (i + 1)) (\<lambda>hi.
                      for_loop lo hi (?inner i) st))"
  let ?Q = "\<lambda>p (st :: int list \<times> int list).
      length (fst st) = nat (ncols + 1) \<and> length (snd st) = length ?Jv \<and>
      (\<forall>c. 0 \<le> c \<and> c < ncols \<longrightarrow> fst st ! nat c = col_start ?Jv c + col_seen ?Jv (nat p) c) \<and>
      (\<forall>r k. r < nat (sizeT A) \<and> nat (I A ! r) \<le> k \<and> k < nat (I A ! (r + 1)) \<and> int k < p \<longrightarrow>
              snd st ! nat (dest ?Jv k) = int r)"
  have sz: "0 \<le> sizeT A" and lI: "length (I A) = nat (sizeT A) + 1" and I0: "I A ! 0 = 0"
    and last: "I A ! nat (sizeT A) = int (length ?Jv)" using wf by (simp_all add: wf_table_def)
  have inner_step: "\<exists>s'. ?inner i j st = Inr s' \<and> ?Q (j + 1) s'"
    if i: "0 \<le> i" "i < sizeT A" and j: "I A ! nat i \<le> j" "j < I A ! (nat i + 1)" and inv: "?Q j st"
    for i j st
  proof -
    obtain iAt jAt where st: "st = (iAt, jAt)" by (cases st)
    have ni: "nat i < nat (sizeT A)" using i by simp
    note b = wf_row_bounds [OF wf ni]
    have j0: "0 \<le> j" and jl: "nat j < length ?Jv" using b j by simp_all
    let ?c = "?Jv ! nat j"
    have c: "0 \<le> ?c" "?c < ncols" using rng jl by auto
    from inv st have liA: "length iAt = nat (ncols + 1)" and ljA: "length jAt = length ?Jv"
      and iq: "\<And>c. 0 \<le> c \<Longrightarrow> c < ncols \<Longrightarrow> iAt ! nat c = col_start ?Jv c + col_seen ?Jv (nat j) c"
      and jq: "\<And>r k. r < nat (sizeT A) \<Longrightarrow> nat (I A ! r) \<le> k \<Longrightarrow> k < nat (I A ! (r + 1)) \<Longrightarrow>
                 int k < j \<Longrightarrow> jAt ! nat (dest ?Jv k) = int r" by auto
    have p: "iAt ! nat ?c = dest ?Jv (nat j)" using iq [OF c] by (simp add: dest_def)
    note db = dest_bounds [OF jl]
    have d0: "0 \<le> dest ?Jv (nat j)" using db(1) by (simp add: col_start_def)
    have dl: "dest ?Jv (nat j) < int (length jAt)"
      using db(2) col_start_le [of ?Jv "?c + 1"] ljA by linarith
    have r1: "rd ?Jv j = Inr ?c" using j0 jl by (simp add: rd_def)
    have r2: "rd iAt ?c = Inr (dest ?Jv (nat j))" using c liA p by (simp add: rd_def)
    let ?iAt' = "iAt[nat ?c := dest ?Jv (nat j) + 1]"
    let ?jAt' = "jAt[nat (dest ?Jv (nat j)) := i]"
    have w1: "wr iAt ?c (dest ?Jv (nat j) + 1) = Inr ?iAt'" using c liA by (simp add: wr_def)
    have w2: "wr jAt (dest ?Jv (nat j)) i = Inr ?jAt'" using d0 dl by (simp add: wr_def)
    have body: "?inner i j st = Inr (?iAt', ?jAt')" by (simp add: st r1 r2 w1 w2)
    have jm: "nat (j + 1) = Suc (nat j)" using j0 by simp
    have "?Q (j + 1) (?iAt', ?jAt')"
      unfolding jm fst_conv snd_conv
    proof (intro conjI allI impI)
      show "length ?iAt' = nat (ncols + 1)" using liA by simp
      show "length ?jAt' = length ?Jv" using ljA by simp
    next
      fix c' assume c': "0 \<le> c' \<and> c' < ncols"
      show "?iAt' ! nat c' = col_start ?Jv c' + col_seen ?Jv (Suc (nat j)) c'"
      proof (cases "c' = ?c")
        case True
        then show ?thesis using c liA jl by (simp add: col_seen_step dest_def)
      next
        case False
        then have "nat c' \<noteq> nat ?c" using c c' by (simp add: eq_nat_nat_iff)
        then show ?thesis using iq [of c'] c' False jl by (simp add: col_seen_step)
      qed
    next
      fix r k assume rk: "r < nat (sizeT A) \<and> nat (I A ! r) \<le> k \<and> k < nat (I A ! (r + 1)) \<and> int k < j + 1"
      show "?jAt' ! nat (dest ?Jv k) = int r"
      proof (cases "k = nat j")
        case True
        have "r = nat i"
        proof (rule row_unique [OF wf _ ni])
          show "r < nat (sizeT A)" using rk by simp
          show "I A ! r \<le> j" "j < I A ! (r + 1)" using rk True j0 by linarith+
          show "I A ! nat i \<le> j" "j < I A ! (nat i + 1)" using j by simp_all
        qed
        then show ?thesis using True d0 dl i by simp
      next
        case False
        then have kj: "int k < j" using rk by linarith
        then have kl: "k < length ?Jv" using jl by linarith
        have "dest ?Jv k \<noteq> dest ?Jv (nat j)" using dest_inj [OF kl jl False] .
        moreover have "0 \<le> dest ?Jv k" using dest_bounds(1) [OF kl] by (simp add: col_start_def)
        ultimately have "nat (dest ?Jv k) \<noteq> nat (dest ?Jv (nat j))" using d0 by (simp add: eq_nat_nat_iff)
        then show ?thesis using jq [of r k] rk kj by simp
      qed
    qed
    with body show ?thesis by blast
  qed
  have "\<exists>s'. for_loop 0 (sizeT A) ?outer (a, j0) = Inr s' \<and> ?Q (I A ! nat (sizeT A)) s'"
  proof (rule for_loop_inv [where P = "\<lambda>i. ?Q (I A ! nat i)"])
    show "0 \<le> sizeT A" by (rule sz)
    show "?Q (I A ! nat 0) (a, j0)" using la lj aq I0 by (simp add: col_seen_def)
  next
    fix i st assume i: "0 \<le> i" "i < sizeT A" and inv: "?Q (I A ! nat i) st"
    have ni: "nat i < nat (sizeT A)" using i by simp
    note b = wf_row_bounds [OF wf ni]
    have r1: "rd (I A) i = Inr (I A ! nat i)" using i lI by (simp add: rd_def)
    have r2: "rd (I A) (i + 1) = Inr (I A ! (nat i + 1))" using i lI by (simp add: rd_def nat_add_distrib)
    have "\<exists>s'. for_loop (I A ! nat i) (I A ! (nat i + 1)) (?inner i) st = Inr s' \<and> ?Q (I A ! (nat i + 1)) s'"
    proof (rule for_loop_inv [where P = ?Q])
      show "I A ! nat i \<le> I A ! (nat i + 1)" by (rule b(2))
      show "?Q (I A ! nat i) st" by (rule inv)
    next
      fix j st' assume "I A ! nat i \<le> j" "j < I A ! (nat i + 1)" "?Q j st'"
      then show "\<exists>s'. ?inner i j st' = Inr s' \<and> ?Q (j + 1) s'" by (rule inner_step [OF i])
    qed
    moreover have "nat (i + 1) = nat i + 1" using i by simp
    ultimately show "\<exists>s'. ?outer i st = Inr s' \<and> ?Q (I A ! nat (i + 1)) s'"
      by (simp add: r1 r2)
  qed
  then obtain s' where run: "for_loop 0 (sizeT A) ?outer (a, j0) = Inr s'"
    and fin: "?Q (int (length ?Jv)) s'" using last by auto
  obtain a' j' where s': "s' = (a', j')" by (cases s')
  have 1: "length a' = nat (ncols + 1)" "length j' = length ?Jv" using fin s' by simp_all
  have 2: "a' ! nat c = col_start ?Jv (c + 1)" if "0 \<le> c \<and> c < ncols" for c
    using fin s' that by (simp add: col_start_Suc)
  have 3: "j' ! nat (dest ?Jv k) = int r"
    if rk: "r < nat (sizeT A) \<and> nat (I A ! r) \<le> k \<and> k < nat (I A ! (r + 1))" for r k
  proof -
    have "I A ! (r + 1) \<le> int (length ?Jv)" using wf_row_bounds(3) [OF wf] rk by simp
    then have "int k < int (length ?Jv)" using rk by linarith
    then show ?thesis using fin s' rk by simp
  qed
  show ?thesis using run s' 1 2 3 by blast
qed

lemma set_entries:
  "set (entries T) =
     {(int i, J T ! k) | i k. i < nat (sizeT T) \<and> nat (I T ! i) \<le> k \<and> k < nat (I T ! (i + 1))}"
  by (auto simp: entries_def row_def)

lemma map_snd_entries:
  assumes "wf_table T"
  shows "map snd (entries T) = J T"
proof -
  have "map snd (entries T) = concat (map (row T) [0..<nat (sizeT T)])"
    by (simp add: entries_def map_concat comp_def)
  then show ?thesis using rows_tile [OF assms] by simp
qed

lemma row_exists:
  assumes wf: "wf_table T" and k: "k < length (J T)"
  shows "\<exists>r < nat (sizeT T). nat (I T ! r) \<le> k \<and> k < nat (I T ! (r + 1))"
proof -
  have last: "I T ! nat (sizeT T) = int (length (J T))" and I0: "I T ! 0 = 0"
    using wf by (simp_all add: wf_table_def)
  have "n \<le> nat (sizeT T) \<Longrightarrow> int k < I T ! n \<Longrightarrow>
      \<exists>r < n. nat (I T ! r) \<le> k \<and> k < nat (I T ! (r + 1))" for n
  proof (induction n)
    case 0
    then show ?case using I0 by simp
  next
    case (Suc n)
    show ?case
    proof (cases "int k < I T ! n")
      case True
      with Suc obtain r where "r < n" "nat (I T ! r) \<le> k \<and> k < nat (I T ! (r + 1))" by auto
      then show ?thesis by (intro exI [of _ r]) simp
    next
      case False
      then show ?thesis using Suc.prems by (intro exI [of _ n]) auto
    qed
  qed
  from this [of "nat (sizeT T)"] last k show ?thesis by simp
qed

lemma Transpose_ok:
  assumes wf: "wf_table A" and rng: "\<forall>c \<in> set (J A). 0 \<le> c \<and> c < ncols" and nc: "0 \<le> ncols"
    and al: "alloc_ok At0"
  shows "\<exists>At. Transpose A At0 ncols = Inr At \<and> sizeT At = ncols \<and> wf_table At \<and>
      set (entries At) = (set (entries A))\<inverse>"
proof -
  let ?Jv = "J A"
  let ?nnz = "int (length ?Jv)"
  have sz: "0 \<le> sizeT A" and lI: "length (I A) = nat (sizeT A) + 1"
    and last: "I A ! nat (sizeT A) = ?nnz" using wf by (simp_all add: wf_table_def)
  have pos: "\<forall>c \<in> set ?Jv. 0 \<le> c" using rng by simp
  have r0: "rd (I A) (sizeT A) = Inr ?nnz" using sz lI last by (simp add: rd_def)
  from SetDims_ok [OF al nc, of ?nnz]
  obtain At1 where sd: "SetDims At0 ncols ?nnz = Inr At1" and s1: "sizeT At1 = ncols"
    and lI1: "length (I At1) = nat ncols + 1" and lJ1: "length (J At1) = length ?Jv" by auto
  have lI1': "length (I At1) = nat (ncols + 1)" using lI1 nc by (simp add: nat_add_distrib)
  have nc1: "0 \<le> ncols + 1" using nc by simp
  note z = zero_loop [OF lI1' nc1]
  from hist_loop [OF rng nc]
  obtain a2 where h: "for_loop 0 ?nnz
             (\<lambda>i i_At. bnd (rd ?Jv i) (\<lambda>c.
                        bnd (rd i_At (c + 1)) (\<lambda>v. wr i_At (c + 1) (v + 1))))
             (replicate (nat (ncols + 1)) 0) = Inr a2"
    and la2: "length a2 = nat (ncols + 1)" and a20: "a2 ! 0 = 0"
    and a2c: "\<forall>c. 0 \<le> c \<and> c < ncols \<longrightarrow> a2 ! nat (c + 1) = col_seen ?Jv (length ?Jv) c" by blast
  from prefix_loop [OF la2 a20 a2c pos nc]
  obtain a3 where p: "for_loop 1 ncols
             (\<lambda>i i_At. bnd (rd i_At (i + 1)) (\<lambda>a.
                        bnd (rd i_At i) (\<lambda>b. wr i_At (i + 1) (a + b)))) a2 = Inr a3"
    and la3: "length a3 = nat (ncols + 1)"
    and a3q: "\<forall>q. 0 \<le> q \<and> q \<le> ncols \<longrightarrow> a3 ! nat q = col_start ?Jv q" by blast
  from scatter_loop [OF wf rng nc la3 a3q lJ1]
  obtain a4 j4 where sc: "for_loop 0 (sizeT A)
             (\<lambda>i st. bnd (rd (I A) i) (\<lambda>lo.
                      bnd (rd (I A) (i + 1)) (\<lambda>hi.
                      for_loop lo hi
                        (\<lambda>j (i_At, j_At).
                           bnd (rd (J A) j) (\<lambda>c.
                           bnd (rd i_At c) (\<lambda>p.
                           bnd (wr i_At c (p + 1)) (\<lambda>i_At'.
                           bnd (wr j_At p i) (\<lambda>j_At'.
                           Inr (i_At', j_At')))))) st)))
             (a3, J At1) = Inr (a4, j4)"
    and la4: "length a4 = nat (ncols + 1)" and lj4: "length j4 = length ?Jv"
    and a4c: "\<forall>c. 0 \<le> c \<and> c < ncols \<longrightarrow> a4 ! nat c = col_start ?Jv (c + 1)"
    and j4q: "\<forall>r k. r < nat (sizeT A) \<and> nat (I A ! r) \<le> k \<and> k < nat (I A ! (r + 1)) \<longrightarrow>
              j4 ! nat (dest ?Jv k) = int r" by blast
  from shift_loop [OF la4 nc a4c]
  obtain a5 where sh: "for_down ncols 0 (\<lambda>i i_At. bnd (rd i_At (i - 1)) (\<lambda>v. wr i_At i v)) a4 = Inr a5"
    and la5: "length a5 = nat (ncols + 1)"
    and a5q: "\<forall>q. 0 < q \<and> q \<le> ncols \<longrightarrow> a5 ! nat q = col_start ?Jv q" by blast
  let ?a6 = "a5[0 := 0]"
  have w6: "wr a5 0 0 = Inr ?a6" using la5 nc by (simp add: wr_def)
  let ?At = "At1\<lparr>I := ?a6, J := j4\<rparr>"
  have run: "Transpose A At0 ncols = Inr ?At"
    using nc by (simp add: Transpose_def Let_def r0 sd z h p sc sh w6)
  have Iq: "I ?At ! nat q = col_start ?Jv q" if "0 \<le> q \<and> q \<le> ncols" for q
  proof (cases "q = 0")
    case True
    then show ?thesis using la5 nc col_start_zero [OF pos] by simp
  next
    case False
    then have "nat q \<noteq> 0" "0 < q" using that by simp_all
    then show ?thesis using a5q that by simp
  qed
  have Iq': "I ?At ! n = col_start ?Jv (int n)" if "n \<le> nat ncols" for n
  proof -
    have "0 \<le> int n \<and> int n \<le> ncols" using that nc by auto
    from Iq [OF this] show ?thesis by simp
  qed
  have "sorted (I ?At)"
    unfolding sorted_iff_nth_mono
  proof (intro allI impI)
    fix i j assume "i \<le> j" "j < length (I ?At)"
    then show "I ?At ! i \<le> I ?At ! j"
      using Iq' [of i] Iq' [of j] la5 nc by (simp add: col_start_mono nat_add_distrib)
  qed
  moreover have "col_start ?Jv ncols = ?nnz" using rng by (intro col_start_all) simp
  ultimately have wfAt: "wf_table ?At"
    using s1 nc la5 Iq' [of 0] Iq' [of "nat ncols"] lj4
    by (simp add: wf_table_def nat_add_distrib)
  have "set (entries ?At) = (set (entries A))\<inverse>"
  proof (intro set_eqI iffI)
    fix x assume "x \<in> set (entries ?At)"
    then obtain c q where x: "x = (int c, j4 ! q)" and c: "c < nat ncols"
      and q: "nat (I ?At ! c) \<le> q" "q < nat (I ?At ! (c + 1))"
      using s1 unfolding set_entries by auto
    have "col_start ?Jv (int c) \<le> int q" "int q < col_start ?Jv (int c + 1)"
      using q Iq' [of c] Iq' [of "c + 1"] c by (simp_all add: add.commute)
    from dest_onto [OF this]
    obtain k where k: "k < length ?Jv" "?Jv ! k = int c" "dest ?Jv k = int q" by blast
    from row_exists [OF wf k(1)]
    obtain r where r: "r < nat (sizeT A)" "nat (I A ! r) \<le> k \<and> k < nat (I A ! (r + 1))" by blast
    have "j4 ! nat (dest ?Jv k) = int r" using j4q r by blast
    then have "j4 ! q = int r" using k(3) by simp
    moreover have "(int r, int c) \<in> set (entries A)"
      unfolding set_entries using r k(2) [symmetric] by auto
    ultimately show "x \<in> (set (entries A))\<inverse>" using x by simp
  next
    fix x assume "x \<in> (set (entries A))\<inverse>"
    then obtain r k where x: "x = (?Jv ! k, int r)" and r: "r < nat (sizeT A)"
      and k: "nat (I A ! r) \<le> k" "k < nat (I A ! (r + 1))"
      unfolding set_entries by auto
    have "I A ! (r + 1) \<le> ?nnz" using wf_row_bounds(3) [OF wf r] .
    then have kl: "k < length ?Jv" using k by linarith
    let ?c = "?Jv ! k"
    have c: "0 \<le> ?c" "?c < ncols" using rng kl by auto
    note db = dest_bounds [OF kl]
    have d0: "0 \<le> dest ?Jv k" using db(1) by (simp add: col_start_def)
    have "I ?At ! nat ?c = col_start ?Jv ?c" using Iq [of ?c] c by simp
    moreover have "I ?At ! (nat ?c + 1) = col_start ?Jv (?c + 1)"
      using Iq [of "?c + 1"] c by (simp add: nat_add_distrib)
    ultimately have "nat (I ?At ! nat ?c) \<le> nat (dest ?Jv k)"
      "nat (dest ?Jv k) < nat (I ?At ! (nat ?c + 1))" using db d0 by simp_all
    moreover have "j4 ! nat (dest ?Jv k) = int r" using j4q r k by blast
    moreover have "nat ?c < nat (sizeT ?At)" using c s1 by simp
    ultimately have "(int (nat ?c), J ?At ! nat (dest ?Jv k)) \<in> set (entries ?At)"
      unfolding set_entries by blast
    then show "x \<in> set (entries ?At)" using x c \<open>j4 ! nat (dest ?Jv k) = int r\<close> by simp
  qed
  then show ?thesis using run wfAt s1 by (intro exI [of _ ?At]) simp
qed

lemma set_J_entries:
  assumes "wf_table T"
  shows "set (J T) = snd ` set (entries T)"
  using map_snd_entries [OF assms] by (metis set_map)

lemma fst_entries_range:
  assumes "x \<in> set (entries T)"
  shows "0 \<le> fst x \<and> fst x < sizeT T"
  using assms unfolding set_entries by auto



section \<open>Mult\<close>

lemma set_foldl_add_new: "set (foldl add_new acc ms) = set acc \<union> set ms"
  by (induction ms arbitrary: acc) (auto simp: add_new_def)

lemma distinct_foldl_add_new: "distinct acc \<Longrightarrow> distinct (foldl add_new acc ms)"
  by (induction ms arbitrary: acc) (auto simp: add_new_def)

lemma length_foldl_add_new: "length acc \<le> length (foldl add_new acc ms)"
proof (induction ms arbitrary: acc)
  case Nil
  then show ?case by simp
next
  case (Cons m ms)
  have "length acc \<le> length (add_new acc m)" by (simp add: add_new_def)
  also have "\<dots> \<le> length (foldl add_new (add_new acc m) ms)" by (rule Cons.IH)
  finally show ?case by simp
qed

lemma set_first_occs: "set (first_occs ms) = set ms"
  by (simp add: first_occs_def set_foldl_add_new)

lemma distinct_first_occs: "distinct (first_occs ms)"
  by (simp add: first_occs_def distinct_foldl_add_new)

lemma first_occs_snoc: "first_occs (ps @ [m]) = add_new (first_occs ps) m"
  by (simp add: first_occs_def)

lemma first_occs_prefix_length: "length (first_occs ps) \<le> length (first_occs (ps @ rest))"
  unfolding first_occs_def foldl_append by (rule length_foldl_add_new)

lemma mult_row_inv:
  fixes R :: "int list \<Rightarrow> 's \<Rightarrow> bool"
  assumes wfA: "wf_table A" and wfB: "wf_table B" and i: "0 \<le> i" "i < sizeT A"
    and ks: "\<forall>k \<in> set (row A (nat i)). 0 \<le> k \<and> k < sizeT B"
    and R0: "R [] st"
    and step: "\<And>ps m rest st. products A B (nat i) = ps @ m # rest \<Longrightarrow> R ps st \<Longrightarrow>
                 \<exists>st'. visit m st = Inr st' \<and> R (ps @ [m]) st'"
  shows "\<exists>st'. mult_row A B i visit st = Inr st' \<and> R (products A B (nat i)) st'"
proof -
  have ni: "nat i < nat (sizeT A)" using i by simp
  note bA = wf_row_bounds [OF wfA ni]
  have lIA: "length (I A) = nat (sizeT A) + 1" using wfA by (simp add: wf_table_def)
  have lIB: "length (I B) = nat (sizeT B) + 1" using wfB by (simp add: wf_table_def)
  let ?lo = "I A ! nat i" and ?hi = "I A ! (nat i + 1)"
  let ?rA = "row A (nat i)"
  have lrA: "length ?rA = nat (?hi - ?lo)" by (rule wf_row_length [OF wfA ni])
  let ?pre = "\<lambda>j. concat (map (\<lambda>k. row B (nat k)) (take (nat (j - ?lo)) ?rA))"
  let ?inner = "\<lambda>l st. bnd (rd (J B) l) (\<lambda>m. visit m st)"
  let ?mid = "\<lambda>j st. bnd (rd (J A) j) (\<lambda>k.
                bnd (rd (I B) k) (\<lambda>lo'.
                bnd (rd (I B) (k + 1)) (\<lambda>hi'.
                for_loop lo' hi' ?inner st)))"
  have r1: "rd (I A) i = Inr ?lo" using i lIA by (simp add: rd_def)
  have r2: "rd (I A) (i + 1) = Inr ?hi" using i lIA by (simp add: rd_def nat_add_distrib)
  have "\<exists>st'. for_loop ?lo ?hi ?mid st = Inr st' \<and> R (?pre ?hi) st'"
  proof (rule for_loop_inv [where P = "\<lambda>j. R (?pre j)"])
    show "?lo \<le> ?hi" by (rule bA(2))
    show "R (?pre ?lo) st" using R0 by simp
  next
    fix j st1 assume j: "?lo \<le> j" "j < ?hi" and inv: "R (?pre j) st1"
    let ?n = "nat (j - ?lo)"
    have n: "?n < length ?rA" using j lrA by simp
    have j0: "0 \<le> j" using j bA by simp
    have jl: "nat j < length (J A)" using j bA by simp
    let ?k = "J A ! nat j"
    have "nat ?lo + ?n = nat j" using j bA by linarith
    then have rk: "?rA ! ?n = ?k" using row_nth [OF n] by simp
    then have kin: "?k \<in> set ?rA" using n by (metis nth_mem)
    then have k: "0 \<le> ?k" "?k < sizeT B" using ks by auto
    have nk: "nat ?k < nat (sizeT B)" using k by simp
    note bB = wf_row_bounds [OF wfB nk]
    let ?lo' = "I B ! nat ?k" and ?hi' = "I B ! (nat ?k + 1)"
    let ?rB = "row B (nat ?k)"
    have lrB: "length ?rB = nat (?hi' - ?lo')" by (rule wf_row_length [OF wfB nk])
    have q1: "rd (J A) j = Inr ?k" using j0 jl by (simp add: rd_def)
    have q2: "rd (I B) ?k = Inr ?lo'" using k lIB by (simp add: rd_def)
    have q3: "rd (I B) (?k + 1) = Inr ?hi'" using k lIB by (simp add: rd_def nat_add_distrib)
    have tk: "take (Suc ?n) ?rA = take ?n ?rA @ [?k]" using n rk by (simp add: take_Suc_conv_app_nth)
    have split_A: "?rA = take ?n ?rA @ ?k # drop (Suc ?n) ?rA"
      using n rk by (metis id_take_nth_drop)
    have prod: "products A B (nat i) = ?pre j @ ?rB @ concat (map (\<lambda>k. row B (nat k)) (drop (Suc ?n) ?rA))"
      unfolding products_def by (subst split_A) simp
    have "\<exists>st'. for_loop ?lo' ?hi' ?inner st1 = Inr st' \<and> R (?pre j @ take (nat (?hi' - ?lo')) ?rB) st'"
    proof (rule for_loop_inv [where P = "\<lambda>l. R (?pre j @ take (nat (l - ?lo')) ?rB)"])
      show "?lo' \<le> ?hi'" by (rule bB(2))
      show "R (?pre j @ take (nat (?lo' - ?lo')) ?rB) st1" using inv by simp
    next
      fix l st2 assume l: "?lo' \<le> l" "l < ?hi'" and inv2: "R (?pre j @ take (nat (l - ?lo')) ?rB) st2"
      let ?t = "nat (l - ?lo')"
      have t: "?t < length ?rB" using l lrB by simp
      have l0: "0 \<le> l" using l bB by simp
      have ll: "nat l < length (J B)" using l bB by simp
      let ?m = "J B ! nat l"
      have "nat ?lo' + ?t = nat l" using l bB by linarith
      then have rm: "?rB ! ?t = ?m" using row_nth [OF t] by simp
      have q4: "rd (J B) l = Inr ?m" using l0 ll by (simp add: rd_def)
      have split_B: "?rB = take ?t ?rB @ ?m # drop (Suc ?t) ?rB" using t rm by (metis id_take_nth_drop)
      have "products A B (nat i) = (?pre j @ take ?t ?rB) @ ?m #
          (drop (Suc ?t) ?rB @ concat (map (\<lambda>k. row B (nat k)) (drop (Suc ?n) ?rA)))"
        unfolding prod by (subst split_B) simp
      from step [OF this inv2]
      obtain st' where st': "visit ?m st2 = Inr st'" "R ((?pre j @ take ?t ?rB) @ [?m]) st'" by blast
      have "nat (l + 1 - ?lo') = Suc ?t" using l by linarith
      moreover have "take (Suc ?t) ?rB = take ?t ?rB @ [?m]" using t rm by (simp add: take_Suc_conv_app_nth)
      ultimately have "R (?pre j @ take (nat (l + 1 - ?lo')) ?rB) st'" using st'(2) by simp
      then show "\<exists>s'. ?inner l st2 = Inr s' \<and> R (?pre j @ take (nat (l + 1 - ?lo')) ?rB) s'"
        using st'(1) by (simp add: q4)
    qed
    moreover have "?pre (j + 1) = ?pre j @ ?rB"
    proof -
      have "nat (j + 1 - ?lo) = Suc ?n" using j by linarith
      then show ?thesis using tk by simp
    qed
    ultimately show "\<exists>s'. ?mid j st1 = Inr s' \<and> R (?pre (j + 1)) s'"
      using lrB by (simp add: q1 q2 q3)
  qed
  moreover have "?pre ?hi = products A B (nat i)" using lrA by (simp add: products_def)
  ultimately show ?thesis by (simp add: mult_row_def r1 r2)
qed

lemma add_new_length:
  "length (add_new acc m) = (if m \<in> set acc then length acc else Suc (length acc))"
  by (simp add: add_new_def)

lemma count_row:
  assumes wfA: "wf_table A" and wfB: "wf_table B" and i: "0 \<le> i" "i < sizeT A"
    and ks: "\<forall>k \<in> set (row A (nat i)). 0 \<le> k \<and> k < sizeT B"
    and ms: "\<forall>m \<in> set (products A B (nat i)). 0 \<le> m \<and> m < nB"
    and lm: "length mk = nat nB" and old: "\<forall>q < nat nB. mk ! q < i"
  shows "\<exists>mk'. mult_row A B i (mult_count i) (mk, c) =
            Inr (mk', c + int (length (first_occs (products A B (nat i))))) \<and>
          length mk' = nat nB \<and> (\<forall>q < nat nB. mk' ! q < i + 1)"
proof -
  let ?R = "\<lambda>ps (st :: int list \<times> int). length (fst st) = nat nB \<and>
      (\<forall>q < nat nB. (fst st ! q = i) = (int q \<in> set ps)) \<and> (\<forall>q < nat nB. fst st ! q \<le> i) \<and>
      snd st = c + int (length (first_occs ps))"
  have "\<exists>st'. mult_row A B i (mult_count i) (mk, c) = Inr st' \<and> ?R (products A B (nat i)) st'"
  proof (rule mult_row_inv [OF wfA wfB i ks, where R = ?R])
    show "?R [] (mk, c)" using lm old by (auto simp: first_occs_def)
  next
    fix ps m rest and st :: "int list \<times> int"
    assume pr: "products A B (nat i) = ps @ m # rest" and inv: "?R ps st"
    obtain mk1 cnt where st: "st = (mk1, cnt)" by (cases st)
    have m: "0 \<le> m" "m < nB" using ms pr by auto
    have nm: "nat m < nat nB" using m by simp
    from inv st have l1: "length mk1 = nat nB"
      and eq: "\<And>q. q < nat nB \<Longrightarrow> (mk1 ! q = i) = (int q \<in> set ps)"
      and le: "\<And>q. q < nat nB \<Longrightarrow> mk1 ! q \<le> i"
      and cnt: "cnt = c + int (length (first_occs ps))" by auto
    have r: "rd mk1 m = Inr (mk1 ! nat m)" using m l1 by (simp add: rd_def)
    have mem: "(mk1 ! nat m = i) = (m \<in> set ps)" using eq [OF nm] m by simp
    show "\<exists>st'. mult_count i m st = Inr st' \<and> ?R (ps @ [m]) st'"
    proof (cases "mk1 ! nat m = i")
      case True
      then have "m \<in> set ps" using mem by simp
      then have "first_occs (ps @ [m]) = first_occs ps"
        by (simp add: first_occs_snoc add_new_def set_first_occs)
      then show ?thesis using True inv st \<open>m \<in> set ps\<close>
        by (auto simp: mult_count_def r)
    next
      case False
      then have nin: "m \<notin> set ps" using mem by simp
      have w: "wr mk1 m i = Inr (mk1[nat m := i])" using m l1 by (simp add: wr_def)
      have fo: "length (first_occs (ps @ [m])) = Suc (length (first_occs ps))"
        using nin by (simp add: first_occs_snoc add_new_length set_first_occs)
      have "?R (ps @ [m]) (mk1[nat m := i], cnt + 1)"
        unfolding fst_conv snd_conv
      proof (intro conjI allI impI)
        show "length (mk1[nat m := i]) = nat nB" using l1 by simp
        show "cnt + 1 = c + int (length (first_occs (ps @ [m])))" using cnt fo by simp
      next
        fix q assume q: "q < nat nB"
        show "(mk1[nat m := i] ! q = i) = (int q \<in> set (ps @ [m]))"
        proof (cases "q = nat m")
          case True
          then show ?thesis using l1 nm m by simp
        next
          case False
          then have "int q \<noteq> m" using m by auto
          then show ?thesis using False eq [OF q] by simp
        qed
        show "mk1[nat m := i] ! q \<le> i" using le [OF q] l1 q by (cases "q = nat m") simp_all
      qed
      then show ?thesis using False by (simp add: mult_count_def st r w)
    qed
  qed
  then obtain mk' cnt' where run: "mult_row A B i (mult_count i) (mk, c) = Inr (mk', cnt')"
    and fin: "?R (products A B (nat i)) (mk', cnt')" by auto
  have "\<forall>q < nat nB. mk' ! q < i + 1" using fin by fastforce
  then show ?thesis using run fin by auto
qed

lemma fill_row:
  assumes wfA: "wf_table A" and wfB: "wf_table B" and i: "0 \<le> i" "i < sizeT A"
    and ks: "\<forall>k \<in> set (row A (nat i)). 0 \<le> k \<and> k < sizeT B"
    and ms: "\<forall>m \<in> set (products A B (nat i)). 0 \<le> m \<and> m < nB"
    and lm: "length mk = nat nB" and old: "\<forall>q < nat nB. mk ! q < i"
    and c0: "0 \<le> c" and room: "nat c + length (first_occs (products A B (nat i))) \<le> length jC"
    and pre: "take (nat c) jC = pre"
  shows "\<exists>mk' jC'. mult_row A B i (mult_fill i) (mk, c, jC) =
            Inr (mk', c + int (length (first_occs (products A B (nat i)))), jC') \<and>
          length mk' = nat nB \<and> (\<forall>q < nat nB. mk' ! q < i + 1) \<and> length jC' = length jC \<and>
          take (nat c + length (first_occs (products A B (nat i)))) jC' =
            pre @ first_occs (products A B (nat i))"
proof -
  let ?R = "\<lambda>ps (st :: int list \<times> int \<times> int list). length (fst st) = nat nB \<and>
      (\<forall>q < nat nB. (fst st ! q = i) = (int q \<in> set ps)) \<and> (\<forall>q < nat nB. fst st ! q \<le> i) \<and>
      fst (snd st) = c + int (length (first_occs ps)) \<and>
      length (snd (snd st)) = length jC \<and>
      take (nat c + length (first_occs ps)) (snd (snd st)) = pre @ first_occs ps"
  have "\<exists>st'. mult_row A B i (mult_fill i) (mk, c, jC) = Inr st' \<and> ?R (products A B (nat i)) st'"
  proof (rule mult_row_inv [OF wfA wfB i ks, where R = ?R])
    show "?R [] (mk, c, jC)" using lm old pre by (auto simp: first_occs_def)
  next
    fix ps m rest and st :: "int list \<times> int \<times> int list"
    assume pr: "products A B (nat i) = ps @ m # rest" and inv: "?R ps st"
    obtain mk1 cnt jC1 where st: "st = (mk1, cnt, jC1)" by (cases st)
    have m: "0 \<le> m" "m < nB" using ms pr by auto
    have nm: "nat m < nat nB" using m by simp
    from inv st have l1: "length mk1 = nat nB"
      and eq: "\<And>q. q < nat nB \<Longrightarrow> (mk1 ! q = i) = (int q \<in> set ps)"
      and le: "\<And>q. q < nat nB \<Longrightarrow> mk1 ! q \<le> i"
      and cnt: "cnt = c + int (length (first_occs ps))"
      and lj: "length jC1 = length jC"
      and tk: "take (nat c + length (first_occs ps)) jC1 = pre @ first_occs ps" by auto
    have r: "rd mk1 m = Inr (mk1 ! nat m)" using m l1 by (simp add: rd_def)
    have mem: "(mk1 ! nat m = i) = (m \<in> set ps)" using eq [OF nm] m by simp
    show "\<exists>st'. mult_fill i m st = Inr st' \<and> ?R (ps @ [m]) st'"
    proof (cases "mk1 ! nat m = i")
      case True
      then have "m \<in> set ps" using mem by simp
      then have "first_occs (ps @ [m]) = first_occs ps"
        by (simp add: first_occs_snoc add_new_def set_first_occs)
      then show ?thesis using True inv st \<open>m \<in> set ps\<close>
        by (auto simp: mult_fill_def r)
    next
      case False
      then have nin: "m \<notin> set ps" using mem by simp
      have w: "wr mk1 m i = Inr (mk1[nat m := i])" using m l1 by (simp add: wr_def)
      have fo: "first_occs (ps @ [m]) = first_occs ps @ [m]"
        using nin by (simp add: first_occs_snoc add_new_def set_first_occs)
      have "length (first_occs (ps @ [m])) \<le> length (first_occs ((ps @ [m]) @ rest))"
        by (rule first_occs_prefix_length)
      then have "Suc (length (first_occs ps)) \<le> length (first_occs (products A B (nat i)))"
        using fo pr by simp
      then have lt: "nat c + length (first_occs ps) < length jC1" using room lj by linarith
      have nc: "nat cnt = nat c + length (first_occs ps)" using cnt c0 by (simp add: nat_add_distrib)
      have w2: "wr jC1 cnt m = Inr (jC1[nat cnt := m])" using lt nc cnt c0 by (simp add: wr_def)
      have tk': "take (Suc (nat cnt)) (jC1[nat cnt := m]) = (pre @ first_occs ps) @ [m]"
        using lt nc tk by (simp add: take_Suc_conv_app_nth)
      have "?R (ps @ [m]) (mk1[nat m := i], cnt + 1, jC1[nat cnt := m])"
        unfolding fst_conv snd_conv
      proof (intro conjI allI impI)
        show "length (mk1[nat m := i]) = nat nB" using l1 by simp
        show "cnt + 1 = c + int (length (first_occs (ps @ [m])))" using cnt fo by simp
        show "length (jC1[nat cnt := m]) = length jC" using lj by simp
        show "take (nat c + length (first_occs (ps @ [m]))) (jC1[nat cnt := m]) = pre @ first_occs (ps @ [m])"
          using tk' nc fo by simp
      next
        fix q assume q: "q < nat nB"
        show "(mk1[nat m := i] ! q = i) = (int q \<in> set (ps @ [m]))"
        proof (cases "q = nat m")
          case True
          then show ?thesis using l1 nm m by simp
        next
          case False
          then have "int q \<noteq> m" using m by auto
          then show ?thesis using False eq [OF q] by simp
        qed
        show "mk1[nat m := i] ! q \<le> i" using le [OF q] l1 q by (cases "q = nat m") simp_all
      qed
      then show ?thesis using False by (simp add: mult_fill_def st r w w2)
    qed
  qed
  then obtain mk' cnt' jC' where run: "mult_row A B i (mult_fill i) (mk, c, jC) = Inr (mk', cnt', jC')"
    and fin: "?R (products A B (nat i)) (mk', cnt', jC')" by auto
  have "\<forall>q < nat nB. mk' ! q < i + 1" using fin by fastforce
  then show ?thesis using run fin by auto
qed

lemma const_loop:
  assumes "length a = nat n" "0 \<le> n"
  shows "for_loop 0 n (\<lambda>i mk. wr mk i v) a = Inr (replicate (nat n) v)"
proof -
  have "n \<le> int (length a)" using assms by simp
  from fill_loop [where lo = 0 and hi = n and a = a and v = v, OF _ assms(2) this]
  obtain b where b: "for_loop 0 n (\<lambda>j Jw. wr Jw j v) a = Inr b" "length b = length a"
    "\<forall>q < length a. b ! q = (if 0 \<le> int q \<and> int q < n then v else a ! q)" by auto
  have "b = replicate (nat n) v"
  proof (rule nth_equalityI)
    show "length b = length (replicate (nat n) v)" using b(2) assms(1) by simp
    fix q assume "q < length b"
    then have q: "q < nat n" using b(2) assms(1) by simp
    then have "int q < n" by linarith
    then show "b ! q = replicate (nat n) v ! q" using b(3) assms(1) q by simp
  qed
  with b(1) show ?thesis by simp
qed

lemma products_range:
  assumes wfA: "wf_table A" and wfB: "wf_table B" and i: "i < nat (sizeT A)"
    and rngA: "\<forall>k \<in> set (J A). 0 \<le> k \<and> k < sizeT B"
  shows "\<forall>k \<in> set (row A i). 0 \<le> k \<and> k < sizeT B"
    and "set (products A B i) \<subseteq> set (J B)"
proof -
  show ks: "\<forall>k \<in> set (row A i). 0 \<le> k \<and> k < sizeT B"
    using set_row_subset [OF wfA i] rngA by blast
  show "set (products A B i) \<subseteq> set (J B)"
  proof
    fix m assume "m \<in> set (products A B i)"
    then obtain k where k: "k \<in> set (row A i)" "m \<in> set (row B (nat k))"
      by (auto simp: products_def)
    then have "nat k < nat (sizeT B)" using ks by auto
    from set_row_subset [OF wfB this] k(2) show "m \<in> set (J B)" by blast
  qed
qed

lemma Mult_ok:
  assumes wfA: "wf_table A" and wfB: "wf_table B"
    and rngA: "\<forall>k \<in> set (J A). 0 \<le> k \<and> k < sizeT B" and posB: "\<forall>m \<in> set (J B). 0 \<le> m"
    and al: "alloc_ok C0"
    and bA: "\<forall>c \<in> set (J A). c < 2147483647" and bB: "\<forall>c \<in> set (J B). c < 2147483647"
  shows "\<exists>C. Mult A B C0 = Inr C \<and> sizeT C = sizeT A \<and> wf_table C \<and>
           (\<forall>i < nat (sizeT A). row C i = first_occs (products A B i))"
proof -
  let ?nA = "sizeT A"
  let ?D = "\<lambda>r. first_occs (products A B r)"
  let ?off = "\<lambda>r. int (length (concat (map ?D [0..<r])))"
  have nA: "0 \<le> ?nA" using wfA by (simp add: wf_table_def)
  from Width_ok [OF wfA bA] obtain wA where wA: "Width A = Inr wA" "\<forall>c \<in> set (J A). c < wA"
    "wA = 0 \<or> wA - 1 \<in> set (J A)" by blast
  from Width_ok [OF wfB bB] obtain wB where wB: "Width B = Inr wB" "0 \<le> wB" "\<forall>c \<in> set (J B). c < wB"
    by blast
  have nB: "0 \<le> sizeT B" using wfB by (simp add: wf_table_def)
  have fits: "\<not> wA > sizeT B" using wA(3) rngA nB by auto
  have msB: "\<forall>m \<in> set (products A B i). 0 \<le> m \<and> m < wB" if "i < nat ?nA" for i
    using products_range(2) [OF wfA wfB that rngA] posB wB(3) by blast
  have ksA: "\<forall>k \<in> set (row A i). 0 \<le> k \<and> k < sizeT B" if "i < nat ?nA" for i
    using products_range(1) [OF wfA wfB that rngA] .
  have off_mono: "?off a \<le> ?off b" if "a \<le> b" for a b
    using length_concat_mono [OF that, of ?D] by simp
  let ?mk0 = "replicate (nat wB) (- 1 :: int)"
  have init: "for_loop 0 wB (\<lambda>i mk. wr mk i (- 1)) (new_int wB) = Inr ?mk0"
    using wB(2) by (intro const_loop) (simp_all add: new_int_def)
  \<comment> \<open>first walk\<close>
  let ?P1 = "\<lambda>i (st :: int list \<times> int). length (fst st) = nat wB \<and>
       (\<forall>q < nat wB. fst st ! q < i) \<and> snd st = ?off (nat i)"
  have "\<exists>s'. for_loop 0 ?nA (\<lambda>i st. mult_row A B i (mult_count i) st) (?mk0, 0) = Inr s' \<and> ?P1 ?nA s'"
  proof (rule for_loop_inv [where P = ?P1])
    show "0 \<le> ?nA" by (rule nA)
    show "?P1 0 (?mk0, 0)" by simp
  next
    fix i st assume i: "0 \<le> i" "i < ?nA" and inv: "?P1 i st"
    obtain mk c where st: "st = (mk, c)" by (cases st)
    have ni: "nat i < nat ?nA" using i by simp
    from inv st have lm: "length mk = nat wB" and old: "\<forall>q < nat wB. mk ! q < i"
      and c: "c = ?off (nat i)" by auto
    from count_row [OF wfA wfB i ksA [OF ni] msB [OF ni] lm old, of c]
    obtain mk' where "mult_row A B i (mult_count i) (mk, c) = Inr (mk', c + int (length (?D (nat i))))"
      "length mk' = nat wB" "\<forall>q < nat wB. mk' ! q < i + 1" by blast
    moreover have "nat (i + 1) = Suc (nat i)" using i by simp
    ultimately show "\<exists>s'. mult_row A B i (mult_count i) st = Inr s' \<and> ?P1 (i + 1) s'"
      using c st by simp
  qed
  then obtain mk1 where p1: "for_loop 0 ?nA (\<lambda>i st. mult_row A B i (mult_count i) st) (?mk0, 0)
      = Inr (mk1, ?off (nat ?nA))" and lmk1: "length mk1 = nat wB" by auto
  let ?tot = "?off (nat ?nA)"
  have tot0: "0 \<le> ?tot" by simp
  from SetDims_ok [OF al nA tot0]
  obtain C1 where sd: "SetDims C0 ?nA ?tot = Inr C1" and s1: "sizeT C1 = ?nA"
    and lI1: "length (I C1) = nat ?nA + 1" and lJ1: "length (J C1) = nat ?tot"
    and I1last: "I C1 ! nat ?nA = ?tot" by blast
  have reinit: "for_loop 0 wB (\<lambda>i mk. wr mk i (- 1)) mk1 = Inr ?mk0"
    using wB(2) lmk1 by (intro const_loop)
  \<comment> \<open>second walk\<close>
  let ?body2 = "\<lambda>i (B_marker, counter, i_C, j_C).
                bnd (wr i_C i counter) (\<lambda>i_C'.
                bnd (mult_row A B i (mult_fill i) (B_marker, counter, j_C))
                  (\<lambda>(B_marker', counter', j_C'). Inr (B_marker', counter', i_C', j_C')))"
  let ?P2 = "\<lambda>i (st :: int list \<times> int \<times> int list \<times> int list).
       (case st of (mk, cnt, iC, jC) \<Rightarrow>
          length mk = nat wB \<and> (\<forall>q < nat wB. mk ! q < i) \<and> cnt = ?off (nat i) \<and>
          length iC = nat ?nA + 1 \<and> (\<forall>r < nat i. iC ! r = ?off r) \<and> iC ! nat ?nA = ?tot \<and>
          length jC = nat ?tot \<and> take (nat (?off (nat i))) jC = concat (map ?D [0..<nat i]))"
  have "\<exists>s'. for_loop 0 ?nA ?body2 (?mk0, 0, I C1, J C1) = Inr s' \<and> ?P2 ?nA s'"
  proof (rule for_loop_inv [where P = ?P2])
    show "0 \<le> ?nA" by (rule nA)
    show "?P2 0 (?mk0, 0, I C1, J C1)" using lI1 lJ1 I1last by simp
  next
    fix i st assume i: "0 \<le> i" "i < ?nA" and inv: "?P2 i st"
    obtain mk c iC jC where st: "st = (mk, c, iC, jC)" by (cases st)
    have ni: "nat i < nat ?nA" using i by simp
    from inv st have lm: "length mk = nat wB" and old: "\<forall>q < nat wB. mk ! q < i"
      and c: "c = ?off (nat i)" and liC: "length iC = nat ?nA + 1"
      and iCr: "\<And>r. r < nat i \<Longrightarrow> iC ! r = ?off r" and iCl: "iC ! nat ?nA = ?tot"
      and ljC: "length jC = nat ?tot"
      and tk: "take (nat (?off (nat i))) jC = concat (map ?D [0..<nat i])" by auto
    have c0: "0 \<le> c" using c by simp
    have "?off (Suc (nat i)) \<le> ?tot" using ni by (intro off_mono) linarith
    then have room: "nat c + length (?D (nat i)) \<le> length jC" using c ljC by simp
    have pre: "take (nat c) jC = concat (map ?D [0..<nat i])" using tk c by simp
    from fill_row [OF wfA wfB i ksA [OF ni] msB [OF ni] lm old c0 room pre]
    obtain mk' jC' where fr: "mult_row A B i (mult_fill i) (mk, c, jC) =
            Inr (mk', c + int (length (?D (nat i))), jC')"
      and lm': "length mk' = nat wB" and old': "\<forall>q < nat wB. mk' ! q < i + 1"
      and ljC': "length jC' = length jC"
      and tk': "take (nat c + length (?D (nat i))) jC' = concat (map ?D [0..<nat i]) @ ?D (nat i)"
      by blast
    have w: "wr iC i c = Inr (iC[nat i := c])" using i liC by (simp add: wr_def)
    have body: "?body2 i st = Inr (mk', c + int (length (?D (nat i))), iC[nat i := c], jC')"
      by (simp add: st w fr)
    have ii: "nat (i + 1) = Suc (nat i)" using i by simp
    have offS: "?off (Suc (nat i)) = c + int (length (?D (nat i)))" using c by simp
    have "?P2 (i + 1) (mk', c + int (length (?D (nat i))), iC[nat i := c], jC')"
      unfolding ii prod.case
    proof (intro conjI allI impI)
      show "length mk' = nat wB" by (rule lm')
      show "c + int (length (?D (nat i))) = ?off (Suc (nat i))" using offS by simp
      show "length (iC[nat i := c]) = nat ?nA + 1" using liC by simp
      have "nat i \<noteq> nat ?nA" using ni by linarith
      then show "iC[nat i := c] ! nat ?nA = ?tot" using iCl by simp
      show "length jC' = nat ?tot" using ljC' ljC by simp
      have "nat (?off (Suc (nat i))) = nat c + length (?D (nat i))" using c by simp
      then show "take (nat (?off (Suc (nat i)))) jC' = concat (map ?D [0..<Suc (nat i)])"
        using tk' by simp
    next
      fix q assume "q < nat wB"
      then show "mk' ! q < i + 1" using old' by simp
    next
      fix r assume "r < Suc (nat i)"
      moreover have "nat i < length iC" using liC ni by linarith
      ultimately show "iC[nat i := c] ! r = ?off r"
        using iCr [of r] c by (cases "r = nat i") simp_all
    qed
    with body show "\<exists>s'. ?body2 i st = Inr s' \<and> ?P2 (i + 1) s'" by blast
  qed
  then obtain s' where p2': "for_loop 0 ?nA ?body2 (?mk0, 0, I C1, J C1) = Inr s'"
    and fin': "?P2 ?nA s'" by blast
  obtain mk2 c2 iC jC where s': "s' = (mk2, c2, iC, jC)" by (cases s')
  have p2: "for_loop 0 ?nA ?body2 (?mk0, 0, I C1, J C1) = Inr (mk2, c2, iC, jC)" using p2' s' by simp
  from fin' s' have liC: "length iC = nat ?nA + 1"
    and iCr: "\<And>r. r < nat ?nA \<Longrightarrow> iC ! r = ?off r" and iCl: "iC ! nat ?nA = ?tot"
    and ljC: "length jC = nat ?tot"
    and tk: "take (nat ?tot) jC = concat (map ?D [0..<nat ?nA])" by auto
  have jCeq: "jC = concat (map ?D [0..<nat ?nA])" using tk ljC by simp
  let ?C = "C1\<lparr>I := iC, J := jC\<rparr>"
  have run: "Mult A B C0 = Inr ?C"
    using fits by (simp add: Mult_def Let_def wA(1) wB(1) init p1 sd reinit p2)
  have Iq: "iC ! q = ?off q" if "q \<le> nat ?nA" for q
    using that iCr [of q] iCl by (cases "q = nat ?nA") simp_all
  have "sorted iC"
    unfolding sorted_iff_nth_mono
  proof (intro allI impI)
    fix a b assume "a \<le> b" "b < length iC"
    then show "iC ! a \<le> iC ! b" using Iq [of a] Iq [of b] liC off_mono [of a b] by simp
  qed
  then have wfC: "wf_table ?C"
    using s1 nA liC Iq [of 0] iCl ljC by (simp add: wf_table_def)
  have rows: "row ?C i = ?D i" if "i < nat ?nA" for i
  proof (rule row_of_concat [OF wfC])
    show "J ?C = concat (map ?D [0..<nat (sizeT ?C)])" using jCeq s1 by simp
    show "i < nat (sizeT ?C)" using that s1 by simp
    show "I ?C ! q = int (length (concat (map ?D [0..<q])))" if "q \<le> nat (sizeT ?C)" for q
      using Iq [of q] that s1 by simp
  qed
  show ?thesis using run wfC rows s1 by (intro exI [of _ ?C]) simp
qed

lemma entries_iff:
  "(i, c) \<in> set (entries T) \<longleftrightarrow> 0 \<le> i \<and> i < sizeT T \<and> c \<in> set (row T (nat i))"
proof
  assume "(i, c) \<in> set (entries T)"
  then obtain n where "n < nat (sizeT T)" "i = int n" "c \<in> set (row T n)"
    by (auto simp: entries_def)
  then show "0 \<le> i \<and> i < sizeT T \<and> c \<in> set (row T (nat i))" by auto
next
  assume h: "0 \<le> i \<and> i < sizeT T \<and> c \<in> set (row T (nat i))"
  then have "nat i < nat (sizeT T)" "int (nat i) = i" by simp_all
  then show "(i, c) \<in> set (entries T)" using h by (force simp: entries_def)
qed




section \<open>Refinement of the entity groups\<close>

lemma each_set_map:
  assumes "\<And>grp. grp \<in> set sets \<Longrightarrow> f grp = Inr (h grp)"
  shows "each_set f sets = Inr (map h sets)"
proof -
  let ?body = "\<lambda>s sets. bnd (rd sets s) (\<lambda>grp. bnd (f grp) (\<lambda>grp'. wr sets s grp'))"
  let ?P = "\<lambda>s cur. length cur = length sets \<and>
      (\<forall>q < length sets. cur ! q = (if int q < s then h (sets ! q) else sets ! q))"
  have "\<exists>s'. for_loop 0 (int (length sets)) ?body sets = Inr s' \<and> ?P (int (length sets)) s'"
  proof (rule for_loop_inv [where P = ?P])
    show "0 \<le> int (length sets)" by simp
    show "?P 0 sets" by simp
  next
    fix k cur assume k: "0 \<le> k" "k < int (length sets)" and inv: "?P k cur"
    have kl: "nat k < length sets" using k by simp
    have lc: "length cur = length sets" using inv by simp
    have ck: "cur ! nat k = sets ! nat k" using inv kl k by simp
    have r: "rd cur k = Inr (sets ! nat k)" using k lc ck by (simp add: rd_def)
    have fk: "f (sets ! nat k) = Inr (h (sets ! nat k))" using assms kl by simp
    have w: "wr cur k (h (sets ! nat k)) = Inr (cur[nat k := h (sets ! nat k)])"
      using k lc by (simp add: wr_def)
    have "?P (k + 1) (cur[nat k := h (sets ! nat k)])"
    proof (intro conjI allI impI)
      show "length (cur[nat k := h (sets ! nat k)]) = length sets" using lc by simp
    next
      fix q assume q: "q < length sets"
      show "cur[nat k := h (sets ! nat k)] ! q = (if int q < k + 1 then h (sets ! q) else sets ! q)"
      proof (cases "q = nat k")
        case True
        then show ?thesis using k lc kl by simp
      next
        case False
        then have "int q \<noteq> k" using k by auto
        then have "int q < k + 1 \<longleftrightarrow> int q < k" by linarith
        then show ?thesis using inv q False by simp
      qed
    qed
    then show "\<exists>s'. ?body k cur = Inr s' \<and> ?P (k + 1) s'" by (simp add: r fk w)
  qed
  then obtain res where res: "for_loop 0 (int (length sets)) ?body sets = Inr res"
    "length res = length sets" "\<forall>q < length sets. res ! q = h (sets ! q)" by auto
  have "res = map h sets" using res(2,3) by (intro nth_equalityI) simp_all
  then show ?thesis using res(1) by (simp add: each_set_def)
qed

lemma length_concat_blocks:
  "(\<And>x. length (f x) = k) \<Longrightarrow> length (concat (map f xs)) = k * length xs"
  by (induction xs) simp_all

lemma nth_concat_blocks:
  assumes "\<And>x. length (f x) = k"
  shows "q < length xs \<Longrightarrow> d < k \<Longrightarrow> concat (map f xs) ! (k * q + d) = f (xs ! q) ! d"
proof (induction xs arbitrary: q)
  case Nil
  then show ?case by simp
next
  case (Cons x xs)
  show ?case
  proof (cases q)
    case 0
    then show ?thesis using Cons.prems assms by (simp add: nth_append)
  next
    case (Suc q')
    then have "concat (map f (x # xs)) ! (k * q + d) = concat (map f xs) ! (k * q' + d)"
      using assms [of x] by (simp add: nth_append)
    then show ?thesis using Cons.IH [of q'] Cons.prems Suc by simp
  qed
qed

lemma blocks_eqI:
  assumes len: "length ys = length xs + k * length xs" and k: "0 < k"
    and fl: "\<And>x. length (f x) = k"
    and pre: "\<And>q. q < length xs \<Longrightarrow> ys ! q = xs ! q"
    and blk: "\<And>q d. q < length xs \<Longrightarrow> d < k \<Longrightarrow> ys ! (length xs + k * q + d) = f (xs ! q) ! d"
  shows "ys = xs @ concat (map f xs)"
proof (rule nth_equalityI)
  show "length ys = length (xs @ concat (map f xs))"
    using len length_concat_blocks [of f k xs, OF fl] by simp
next
  fix p assume p: "p < length ys"
  show "ys ! p = (xs @ concat (map f xs)) ! p"
  proof (cases "p < length xs")
    case True
    then show ?thesis using pre by (simp add: nth_append)
  next
    case False
    define r where "r = p - length xs"
    define q where "q = r div k"
    define d where "d = r mod k"
    have r: "r = k * q + d" unfolding q_def d_def by simp
    have d: "d < k" unfolding d_def using k by simp
    have "r < k * length xs" using p len False by (simp add: r_def)
    then have q: "q < length xs" unfolding q_def using k
      by (simp add: less_mult_imp_div_less mult.commute)
    have pp: "p = length xs + k * q + d" using False r by (simp add: r_def)
    have "(xs @ concat (map f xs)) ! p = concat (map f xs) ! (k * q + d)"
      using False r by (simp add: nth_append r_def)
    also have "\<dots> = f (xs ! q) ! d" by (rule nth_concat_blocks [OF fl q d])
    finally show ?thesis using blk [OF q d] pp by simp
  qed
qed

lemma resize_grow:
  "0 \<le> n \<Longrightarrow> length xs \<le> nat n \<Longrightarrow> resize xs n d = Inr (xs @ replicate (nat n - length xs) d)"
  by (simp add: resize_def)

lemma quad_element_group_eq:
  "quad_element_group N grp0 =
     Inr (grp0 @ concat (map (\<lambda>e. [wrap (wrap (N + wrap (3 * e)) + 0), wrap (wrap (N + wrap (3 * e)) + 1), wrap (wrap (N + wrap (3 * e)) + 2)]) grp0))"
proof -
  let ?m = "length grp0"
  let ?n = "int ?m"
  let ?g1 = "grp0 @ replicate (nat (4 * ?n) - ?m) 0"
  let ?ch = "\<lambda>e. [wrap (wrap (N + wrap (3 * e)) + 0), wrap (wrap (N + wrap (3 * e)) + 1), wrap (wrap (N + wrap (3 * e)) + 2)]"
  let ?body = "\<lambda>i grp.
           bnd (rd grp i) (\<lambda>e.
           let j = wrap (N + wrap (3 * e)) in
           bnd (wr grp (?n + 3 * i + 0) (wrap (j + 0))) (\<lambda>grp.
           bnd (wr grp (?n + 3 * i + 1) (wrap (j + 1))) (\<lambda>grp.
           wr grp (?n + 3 * i + 2) (wrap (j + 2)))))"
  let ?P = "\<lambda>i (grp :: int list). length grp = 4 * ?m \<and> (\<forall>q < ?m. grp ! q = grp0 ! q) \<and>
      (\<forall>q d. int q < i \<and> d < 3 \<longrightarrow> grp ! (?m + 3 * q + d) = ?ch (grp0 ! q) ! d)"
  have rs: "resize grp0 (4 * ?n) 0 = Inr ?g1" by (intro resize_grow) simp_all
  have "\<exists>s'. for_loop 0 ?n ?body ?g1 = Inr s' \<and> ?P ?n s'"
  proof (rule for_loop_inv [where P = ?P])
    show "0 \<le> ?n" by simp
    show "?P 0 ?g1" by (auto simp: nth_append)
  next
    fix k grp assume k: "0 \<le> k" "k < ?n" and inv: "?P k grp"
    let ?i = "nat k"
    have i: "?i < ?m" using k by simp
    have lg: "length grp = 4 * ?m" using inv by simp
    let ?e = "grp0 ! ?i"
    have r: "rd grp k = Inr ?e" using k lg inv i by (simp add: rd_def)
    let ?a = "?m + 3 * ?i"
    have p0: "nat (?n + 3 * k + 0) = ?a" and p1: "nat (?n + 3 * k + 1) = ?a + 1"
      and p2: "nat (?n + 3 * k + 2) = ?a + 2" using k by (simp_all add: nat_add_distrib nat_mult_distrib)
    let ?g' = "grp[?a := wrap (wrap (N + wrap (3 * ?e)) + 0), ?a + 1 := wrap (wrap (N + wrap (3 * ?e)) + 1), ?a + 2 := wrap (wrap (N + wrap (3 * ?e)) + 2)]"
    have w0: "wr grp (?n + 3 * k + 0) (wrap (wrap (N + wrap (3 * ?e)) + 0)) = Inr (grp[?a := wrap (wrap (N + wrap (3 * ?e)) + 0)])"
      using k lg i p0 by (simp add: wr_def)
    have w1: "wr (grp[?a := wrap (wrap (N + wrap (3 * ?e)) + 0)]) (?n + 3 * k + 1) (wrap (wrap (N + wrap (3 * ?e)) + 1)) =
        Inr (grp[?a := wrap (wrap (N + wrap (3 * ?e)) + 0), ?a + 1 := wrap (wrap (N + wrap (3 * ?e)) + 1)])"
      using k lg i p1 by (simp add: wr_def)
    have w2: "wr (grp[?a := wrap (wrap (N + wrap (3 * ?e)) + 0), ?a + 1 := wrap (wrap (N + wrap (3 * ?e)) + 1)]) (?n + 3 * k + 2) (wrap (wrap (N + wrap (3 * ?e)) + 2)) = Inr ?g'"
      using k lg i p2 by (simp add: wr_def)
    have body: "?body k grp = Inr ?g'"
      unfolding r bnd_Inr Let_def w0 w1 w2 ..
    have "?P (k + 1) ?g'"
    proof (intro conjI allI impI)
      show "length ?g' = 4 * ?m" using lg by simp
    next
      fix q assume "q < ?m"
      then show "?g' ! q = grp0 ! q" using inv by simp
    next
      fix q d :: nat assume qd: "int q < k + 1 \<and> d < 3"
      show "?g' ! (?m + 3 * q + d) = ?ch (grp0 ! q) ! d"
      proof (cases "q = ?i")
        case True
        have "d = 0 \<or> d = 1 \<or> d = 2" using qd by linarith
        then show ?thesis using True lg i by (auto simp: nth_list_update)
      next
        case False
        then have "int q < k" using qd by linarith
        then have "q < ?i" using k by linarith
        then have "?m + 3 * q + d < ?a" using qd by linarith
        then show ?thesis using inv \<open>int q < k\<close> qd by simp
      qed
    qed
    with body show "\<exists>s'. ?body k grp = Inr s' \<and> ?P (k + 1) s'" by blast
  qed
  then obtain res where res: "for_loop 0 ?n ?body ?g1 = Inr res" and fin: "?P ?n res" by blast
  have "res = grp0 @ concat (map ?ch grp0)"
  proof (rule blocks_eqI [where k = 3])
    show "length res = ?m + 3 * ?m" using fin by simp
    show "(0::nat) < 3" by simp
    show "length (?ch x) = 3" for x by simp
    show "res ! q = grp0 ! q" if "q < ?m" for q using fin that by simp
    show "res ! (?m + 3 * q + d) = ?ch (grp0 ! q) ! d" if "q < ?m" "d < 3" for q d :: nat
      using fin that by simp
  qed
  then show ?thesis using res by (simp add: quad_element_group_def Let_def rs)
qed

lemma hex_element_group_eq:
  "hex_element_group N grp0 =
     Inr (grp0 @ concat (map (\<lambda>e. [wrap (wrap (N + wrap (7 * e)) + 0), wrap (wrap (N + wrap (7 * e)) + 1), wrap (wrap (N + wrap (7 * e)) + 2), wrap (wrap (N + wrap (7 * e)) + 3), wrap (wrap (N + wrap (7 * e)) + 4), wrap (wrap (N + wrap (7 * e)) + 5), wrap (wrap (N + wrap (7 * e)) + 6)]) grp0))"
proof -
  let ?m = "length grp0"
  let ?n = "int ?m"
  let ?g1 = "grp0 @ replicate (nat (8 * ?n) - ?m) 0"
  let ?ch = "\<lambda>e. [wrap (wrap (N + wrap (7 * e)) + 0), wrap (wrap (N + wrap (7 * e)) + 1), wrap (wrap (N + wrap (7 * e)) + 2), wrap (wrap (N + wrap (7 * e)) + 3), wrap (wrap (N + wrap (7 * e)) + 4), wrap (wrap (N + wrap (7 * e)) + 5), wrap (wrap (N + wrap (7 * e)) + 6)]"
  let ?body = "\<lambda>i grp.
           bnd (rd grp i) (\<lambda>e.
           let j = wrap (N + wrap (7 * e)) in
           bnd (wr grp (?n + 7 * i + 0) (wrap (j + 0))) (\<lambda>grp.
           bnd (wr grp (?n + 7 * i + 1) (wrap (j + 1))) (\<lambda>grp.
           bnd (wr grp (?n + 7 * i + 2) (wrap (j + 2))) (\<lambda>grp.
           bnd (wr grp (?n + 7 * i + 3) (wrap (j + 3))) (\<lambda>grp.
           bnd (wr grp (?n + 7 * i + 4) (wrap (j + 4))) (\<lambda>grp.
           bnd (wr grp (?n + 7 * i + 5) (wrap (j + 5))) (\<lambda>grp.
           wr grp (?n + 7 * i + 6) (wrap (j + 6)))))))))"
  let ?P = "\<lambda>i (grp :: int list). length grp = 8 * ?m \<and> (\<forall>q < ?m. grp ! q = grp0 ! q) \<and>
      (\<forall>q d. int q < i \<and> d < 7 \<longrightarrow> grp ! (?m + 7 * q + d) = ?ch (grp0 ! q) ! d)"
  have rs: "resize grp0 (8 * ?n) 0 = Inr ?g1" by (intro resize_grow) simp_all
  have "\<exists>s'. for_loop 0 ?n ?body ?g1 = Inr s' \<and> ?P ?n s'"
  proof (rule for_loop_inv [where P = ?P])
    show "0 \<le> ?n" by simp
    show "?P 0 ?g1" by (auto simp: nth_append)
  next
    fix k grp assume k: "0 \<le> k" "k < ?n" and inv: "?P k grp"
    let ?i = "nat k"
    have i: "?i < ?m" using k by simp
    have lg: "length grp = 8 * ?m" using inv by simp
    let ?e = "grp0 ! ?i"
    have r: "rd grp k = Inr ?e" using k lg inv i by (simp add: rd_def)
    let ?a = "?m + 7 * ?i"
    have p0: "nat (?n + 7 * k + 0) = ?a" and p1: "nat (?n + 7 * k + 1) = ?a + 1" and p2: "nat (?n + 7 * k + 2) = ?a + 2" and p3: "nat (?n + 7 * k + 3) = ?a + 3" and p4: "nat (?n + 7 * k + 4) = ?a + 4" and p5: "nat (?n + 7 * k + 5) = ?a + 5" and p6: "nat (?n + 7 * k + 6) = ?a + 6"
      using k by (simp_all add: nat_add_distrib nat_mult_distrib)
    let ?g' = "grp[?a := wrap (wrap (N + wrap (7 * ?e)) + 0), ?a + 1 := wrap (wrap (N + wrap (7 * ?e)) + 1), ?a + 2 := wrap (wrap (N + wrap (7 * ?e)) + 2), ?a + 3 := wrap (wrap (N + wrap (7 * ?e)) + 3), ?a + 4 := wrap (wrap (N + wrap (7 * ?e)) + 4), ?a + 5 := wrap (wrap (N + wrap (7 * ?e)) + 5), ?a + 6 := wrap (wrap (N + wrap (7 * ?e)) + 6)]"
    have w0: "wr grp (?n + 7 * k + 0) (wrap (wrap (N + wrap (7 * ?e)) + 0)) = Inr (grp[?a := wrap (wrap (N + wrap (7 * ?e)) + 0)])"
      using k lg i p0 by (simp add: wr_def)
    have w1: "wr (grp[?a := wrap (wrap (N + wrap (7 * ?e)) + 0)]) (?n + 7 * k + 1) (wrap (wrap (N + wrap (7 * ?e)) + 1)) = Inr (grp[?a := wrap (wrap (N + wrap (7 * ?e)) + 0), ?a + 1 := wrap (wrap (N + wrap (7 * ?e)) + 1)])"
      using k lg i p1 by (simp add: wr_def)
    have w2: "wr (grp[?a := wrap (wrap (N + wrap (7 * ?e)) + 0), ?a + 1 := wrap (wrap (N + wrap (7 * ?e)) + 1)]) (?n + 7 * k + 2) (wrap (wrap (N + wrap (7 * ?e)) + 2)) = Inr (grp[?a := wrap (wrap (N + wrap (7 * ?e)) + 0), ?a + 1 := wrap (wrap (N + wrap (7 * ?e)) + 1), ?a + 2 := wrap (wrap (N + wrap (7 * ?e)) + 2)])"
      using k lg i p2 by (simp add: wr_def)
    have w3: "wr (grp[?a := wrap (wrap (N + wrap (7 * ?e)) + 0), ?a + 1 := wrap (wrap (N + wrap (7 * ?e)) + 1), ?a + 2 := wrap (wrap (N + wrap (7 * ?e)) + 2)]) (?n + 7 * k + 3) (wrap (wrap (N + wrap (7 * ?e)) + 3)) = Inr (grp[?a := wrap (wrap (N + wrap (7 * ?e)) + 0), ?a + 1 := wrap (wrap (N + wrap (7 * ?e)) + 1), ?a + 2 := wrap (wrap (N + wrap (7 * ?e)) + 2), ?a + 3 := wrap (wrap (N + wrap (7 * ?e)) + 3)])"
      using k lg i p3 by (simp add: wr_def)
    have w4: "wr (grp[?a := wrap (wrap (N + wrap (7 * ?e)) + 0), ?a + 1 := wrap (wrap (N + wrap (7 * ?e)) + 1), ?a + 2 := wrap (wrap (N + wrap (7 * ?e)) + 2), ?a + 3 := wrap (wrap (N + wrap (7 * ?e)) + 3)]) (?n + 7 * k + 4) (wrap (wrap (N + wrap (7 * ?e)) + 4)) = Inr (grp[?a := wrap (wrap (N + wrap (7 * ?e)) + 0), ?a + 1 := wrap (wrap (N + wrap (7 * ?e)) + 1), ?a + 2 := wrap (wrap (N + wrap (7 * ?e)) + 2), ?a + 3 := wrap (wrap (N + wrap (7 * ?e)) + 3), ?a + 4 := wrap (wrap (N + wrap (7 * ?e)) + 4)])"
      using k lg i p4 by (simp add: wr_def)
    have w5: "wr (grp[?a := wrap (wrap (N + wrap (7 * ?e)) + 0), ?a + 1 := wrap (wrap (N + wrap (7 * ?e)) + 1), ?a + 2 := wrap (wrap (N + wrap (7 * ?e)) + 2), ?a + 3 := wrap (wrap (N + wrap (7 * ?e)) + 3), ?a + 4 := wrap (wrap (N + wrap (7 * ?e)) + 4)]) (?n + 7 * k + 5) (wrap (wrap (N + wrap (7 * ?e)) + 5)) = Inr (grp[?a := wrap (wrap (N + wrap (7 * ?e)) + 0), ?a + 1 := wrap (wrap (N + wrap (7 * ?e)) + 1), ?a + 2 := wrap (wrap (N + wrap (7 * ?e)) + 2), ?a + 3 := wrap (wrap (N + wrap (7 * ?e)) + 3), ?a + 4 := wrap (wrap (N + wrap (7 * ?e)) + 4), ?a + 5 := wrap (wrap (N + wrap (7 * ?e)) + 5)])"
      using k lg i p5 by (simp add: wr_def)
    have w6: "wr (grp[?a := wrap (wrap (N + wrap (7 * ?e)) + 0), ?a + 1 := wrap (wrap (N + wrap (7 * ?e)) + 1), ?a + 2 := wrap (wrap (N + wrap (7 * ?e)) + 2), ?a + 3 := wrap (wrap (N + wrap (7 * ?e)) + 3), ?a + 4 := wrap (wrap (N + wrap (7 * ?e)) + 4), ?a + 5 := wrap (wrap (N + wrap (7 * ?e)) + 5)]) (?n + 7 * k + 6) (wrap (wrap (N + wrap (7 * ?e)) + 6)) = Inr (grp[?a := wrap (wrap (N + wrap (7 * ?e)) + 0), ?a + 1 := wrap (wrap (N + wrap (7 * ?e)) + 1), ?a + 2 := wrap (wrap (N + wrap (7 * ?e)) + 2), ?a + 3 := wrap (wrap (N + wrap (7 * ?e)) + 3), ?a + 4 := wrap (wrap (N + wrap (7 * ?e)) + 4), ?a + 5 := wrap (wrap (N + wrap (7 * ?e)) + 5), ?a + 6 := wrap (wrap (N + wrap (7 * ?e)) + 6)])"
      using k lg i p6 by (simp add: wr_def)
    have body: "?body k grp = Inr ?g'"
      unfolding r bnd_Inr Let_def w0 w1 w2 w3 w4 w5 w6 ..
    have "?P (k + 1) ?g'"
    proof (intro conjI allI impI)
      show "length ?g' = 8 * ?m" using lg by simp
    next
      fix q assume "q < ?m"
      then show "?g' ! q = grp0 ! q" using inv by simp
    next
      fix q d :: nat assume qd: "int q < k + 1 \<and> d < 7"
      show "?g' ! (?m + 7 * q + d) = ?ch (grp0 ! q) ! d"
      proof (cases "q = ?i")
        case True
        have "d = 0 \<or> d = 1 \<or> d = 2 \<or> d = 3 \<or> d = 4 \<or> d = 5 \<or> d = 6" using qd by linarith
        then show ?thesis using True lg i by (auto simp: nth_list_update)
      next
        case False
        then have "int q < k" using qd by linarith
        then have "q < ?i" using k by linarith
        then have "?m + 7 * q + d < ?a" using qd by linarith
        then show ?thesis using inv \<open>int q < k\<close> qd by simp
      qed
    qed
    with body show "\<exists>s'. ?body k grp = Inr s' \<and> ?P (k + 1) s'" by blast
  qed
  then obtain res where res: "for_loop 0 ?n ?body ?g1 = Inr res" and fin: "?P ?n res" by blast
  have "res = grp0 @ concat (map ?ch grp0)"
  proof (rule blocks_eqI [where k = 7])
    show "length res = ?m + 7 * ?m" using fin by simp
    show "(0::nat) < 7" by simp
    show "length (?ch x) = 7" for x by simp
    show "res ! q = grp0 ! q" if "q < ?m" for q using fin that by simp
    show "res ! (?m + 7 * q + d) = ?ch (grp0 ! q) ! d" if "q < ?m" "d < 7" for q d :: nat
      using fin that by simp
  qed
  then show ?thesis using res by (simp add: hex_element_group_def Let_def rs)
qed

lemma sets_m_CopyMeshTables: "sets_m (CopyMeshTables es) = sets_m es"
  by (simp add: CopyMeshTables_def Let_def split: prod.splits)

lemma wrap_idem: "wrap (wrap a) = wrap a"
  using wrap_add_left [of a 0] by simp

lemma length_concat_const:
  "(\<And>e. length (f e) = k) \<Longrightarrow> length (concat (map f xs)) = k * length xs"
  by (induction xs) simp_all




lemma chain_find_map_of:
  "chain_find chain c = map_of (map (\<lambda>n. (Column n, Index n)) chain) c"
  by (induction chain) simp_all

lemma DSTable_op_ok:
  assumes "length (Rows D) = nat (NumRows D)" "0 \<le> a" "0 \<le> b"
  shows "DSTable_op dbg (Some D) a b = Inr (pair_index D a b)"
proof -
  have idx: "DSTable_Index dbg D r c =
      Inr (if NumRows D \<le> r then - 1
           else case map_of (map (\<lambda>n. (Column n, Index n)) (Rows D ! nat r)) c of
                  Some idx \<Rightarrow> idx | None \<Rightarrow> - 1)" if "0 \<le> r" for r c
  proof (cases "r \<ge> NumRows D")
    case True
    then show ?thesis using that by (simp add: DSTable_Index_def)
  next
    case False
    then have "r < int (length (Rows D))" using assms(1) that by linarith
    then have "rd (Rows D) r = Inr (Rows D ! nat r)" using that by (simp add: rd_def)
    then show ?thesis using that False
      by (cases "map_of (map (\<lambda>n. (Column n, Index n)) (Rows D ! nat r)) c")
        (simp_all add: DSTable_Index_def chain_find_map_of)
  qed
  show ?thesis
  proof (cases "a \<le> b")
    case True
    then have "min a b = a" "max a b = b" by simp_all
    then show ?thesis using idx [OF assms(2), of b] True
      by (simp add: DSTable_op_def pair_index_def)
  next
    case False
    then have "min a b = b" "max a b = a" by simp_all
    then show ?thesis using idx [OF assms(3), of a] False
      by (simp add: DSTable_op_def pair_index_def)
  qed
qed

lemma valid_edge_reads:
  assumes wf: "wf_table T" and v: "valid_edge T e"
  shows "GetRow (Some T) e = Inr (T, I T ! nat e)"
    and "at_row (T, I T ! nat e) 0 = Inr (row T (nat e) ! 0)"
    and "at_row (T, I T ! nat e) 1 = Inr (row T (nat e) ! 1)"
proof -
  have e: "0 \<le> e" "e < sizeT T" and two: "2 \<le> length (row T (nat e))"
    using v by (simp_all add: valid_edge_def)
  have lt: "nat e < nat (sizeT T)" using e by linarith
  have len: "length (I T) = nat (sizeT T) + 1" using wf by (simp add: wf_table_def)
  have "e < int (length (I T))" using len e by linarith
  then show "GetRow (Some T) e = Inr (T, I T ! nat e)"
    using e by (simp add: GetRow_def rd_def)
  note b = wf_row_bounds [OF wf lt]
  have l: "length (row T (nat e)) = nat (I T ! (nat e + 1) - I T ! nat e)"
    by (rule wf_row_length [OF wf lt])
  have r: "I T ! nat e + 1 < int (length (J T))" using two l b by linarith
  have "row T (nat e) ! 0 = J T ! (nat (I T ! nat e) + 0)"
    using two by (intro row_nth) linarith
  then show "at_row (T, I T ! nat e) 0 = Inr (row T (nat e) ! 0)"
    using b r by (simp add: at_row_def rd_def)
  have "row T (nat e) ! 1 = J T ! (nat (I T ! nat e) + 1)"
    using two by (intro row_nth) linarith
  moreover have "nat (I T ! nat e + 1) = nat (I T ! nat e) + 1" using b by linarith
  ultimately show "at_row (T, I T ! nat e) 1 = Inr (row T (nat e) ! 1)"
    using b r by (simp add: at_row_def rd_def)
qed

lemma refine_edge_group_eq:
  assumes wf: "wf_table T" and v: "\<And>e. e \<in> set g \<Longrightarrow> valid_edge T e"
    and la: "\<And>e. e \<in> set g \<Longrightarrow>
               DSTable_op dbg vp (row T (nat e) ! 0) (wrap (oedge + e)) = Inr (a e)"
    and lb: "\<And>e. e \<in> set g \<Longrightarrow>
               DSTable_op dbg vp (row T (nat e) ! 1) (wrap (oedge + e)) = Inr (b e)"
  shows "refine_edge_group dbg vp (Some T) oedge g = Inr (map a g @ map b g)"
proof -
  let ?m = "length g"
  let ?n = "int ?m"
  let ?g1 = "g @ replicate (nat (2 * ?n) - ?m) 0"
  let ?body = "\<lambda>i grp.
           bnd (rd grp i) (\<lambda>old_edge.
           bnd (GetRow (Some T) old_edge) (\<lambda>v.
           bnd (at_row v 0) (\<lambda>va.
           bnd (DSTable_op dbg vp va (wrap (oedge + old_edge))) (\<lambda>x0.
           bnd (wr grp i x0) (\<lambda>grp'.
           bnd (at_row v 1) (\<lambda>vb.
           bnd (DSTable_op dbg vp vb (wrap (oedge + old_edge))) (\<lambda>x1.
           wr grp' (i + ?n) x1)))))))"
  let ?P = "\<lambda>i grp. length grp = 2 * ?m \<and>
      (\<forall>q < ?m. grp ! q = (if int q < i then a (g ! q) else g ! q)) \<and>
      (\<forall>q < ?m. int q < i \<longrightarrow> grp ! (q + ?m) = b (g ! q))"
  have rs: "resize g (2 * ?n) 0 = Inr ?g1" by (intro resize_grow) simp_all
  have l1: "length ?g1 = 2 * ?m" by simp
  have "\<exists>s'. for_loop 0 ?n ?body ?g1 = Inr s' \<and> ?P ?n s'"
  proof (rule for_loop_inv [where P = ?P])
    show "0 \<le> ?n" by simp
    show "?P 0 ?g1" by (simp add: nth_append)
  next
    fix k grp assume k: "0 \<le> k" "k < ?n" and inv: "?P k grp"
    have lg: "length grp = 2 * ?m" using inv by simp
    have kq: "nat k < ?m" using k by linarith
    define e where "e = g ! nat k"
    have mem: "e \<in> set g" using kq by (simp add: e_def)
    have ge: "grp ! nat k = e" using inv kq k by (simp add: e_def)
    have ve: "valid_edge T e" using mem by (rule v)
    have r0: "rd grp k = Inr e" using k lg ge by (simp add: rd_def)
    let ?g2 = "grp[nat k := a e]"
    have w0: "wr grp k (a e) = Inr ?g2" using k lg by (simp add: wr_def)
    let ?g3 = "?g2[nat k + ?m := b e]"
    have nk: "nat (k + ?n) = nat k + ?m" using k by linarith
    have w1: "wr ?g2 (k + ?n) (b e) = Inr ?g3" using k lg by (simp add: wr_def nk)
    have step: "?body k grp = Inr ?g3"
      using r0 valid_edge_reads [OF wf ve] la [OF mem] lb [OF mem] w0 w1 by (simp add: bnd_def)
    have "?P (k + 1) ?g3"
    proof (intro conjI allI impI)
      show "length ?g3 = 2 * ?m" using lg by simp
    next
      fix q assume q: "q < ?m"
      have "?g3 ! q = ?g2 ! q" using q by simp
      also have "\<dots> = (if q = nat k then a e else grp ! q)"
        using q lg by (simp add: nth_list_update)
      also have "\<dots> = (if int q < k + 1 then a (g ! q) else g ! q)"
      proof (cases "q = nat k")
        case True then show ?thesis using k by (simp add: e_def)
      next
        case False
        then have "(int q < k + 1) = (int q < k)" using k by linarith
        then show ?thesis using inv q False by simp
      qed
      finally show "?g3 ! q = (if int q < k + 1 then a (g ! q) else g ! q)" .
    next
      fix q assume q: "q < ?m" and qk: "int q < k + 1"
      show "?g3 ! (q + ?m) = b (g ! q)"
      proof (cases "q = nat k")
        case True then show ?thesis using lg kq by (simp add: e_def)
      next
        case False
        then have lt: "int q < k" using qk k by linarith
        have "?g3 ! (q + ?m) = ?g2 ! (q + ?m)" using False by simp
        also have "\<dots> = grp ! (q + ?m)" using kq by simp
        also have "\<dots> = b (g ! q)" using inv q lt by simp
        finally show ?thesis .
      qed
    qed
    with step show "\<exists>s'. ?body k grp = Inr s' \<and> ?P (k + 1) s'" by blast
  qed
  then obtain s' where run: "for_loop 0 ?n ?body ?g1 = Inr s'" and fin: "?P ?n s'" by blast
  have "s' = map a g @ map b g"
  proof (rule nth_equalityI)
    show "length s' = length (map a g @ map b g)" using fin by simp
  next
    fix q assume "q < length s'"
    then have q: "q < 2 * ?m" using fin by simp
    show "s' ! q = (map a g @ map b g) ! q"
    proof (cases "q < ?m")
      case True then show ?thesis using fin by (simp add: nth_append)
    next
      case False
      then obtain p where p: "q = p + ?m" "p < ?m" using q
        by (metis add.commute le_add_diff_inverse less_diff_conv2 mult_2 not_less)
      then show ?thesis using fin by (simp add: nth_append)
    qed
  qed
  then show ?thesis unfolding refine_edge_group_def Let_def rs using run by simp
qed




lemma foldM_pres:
  assumes "foldM f xs s = Inr s'" "P s" "\<And>x s s'. P s \<Longrightarrow> f x s = Inr s' \<Longrightarrow> P s'"
  shows "P s'"
  using assms(1,2)
proof (induction xs arbitrary: s)
  case Nil then show ?case by simp
next
  case (Cons x xs)
  from Cons.prems(1) obtain s1 where s1: "f x s = Inr s1" and r: "foldM f xs s1 = Inr s'"
    by (auto simp: bnd_def split: sum.splits)
  have "P s1" using assms(3) [OF Cons.prems(2) s1] .
  then show ?case using Cons.IH [OF r] by simp
qed

lemma for_loop_pres:
  assumes "for_loop lo hi body s = Inr s'" "P s" "\<And>k s s'. P s \<Longrightarrow> body k s = Inr s' \<Longrightarrow> P s'"
  shows "P s'"
  using assms(1) unfolding for_loop_def
  by (rule foldM_pres [where P = P]) (use assms(2,3) in blast)+

lemma set_entity_frame:
  "set_entity es t i j v = Inr es' \<Longrightarrow> t' \<noteq> t \<Longrightarrow> sets_m es' t' = sets_m es t'"
  by (auto simp: set_entity_def bnd_def split: sum.splits)

lemma load_entity_frame:
  assumes "load_entity dbg vp t i j (es, s, L) = Inr (es', s', L')" "t' \<noteq> t"
  shows "sets_m es' t' = sets_m es t'"
proof (cases t)
  case VERTEX
  with assms show ?thesis
    by (auto simp: load_entity_def bnd_def Let_def dest: set_entity_frame
             split: sum.splits prod.splits)
next
  case ELEMENT
  with assms show ?thesis
    by (auto simp: load_entity_def bnd_def Let_def dest: set_entity_frame
             split: sum.splits prod.splits)
next
  case EDGE
  with assms show ?thesis
    by (auto simp: load_entity_def bnd_def Let_def dest: set_entity_frame
             split: sum.splits prod.splits)
next
  case FACE
  with assms show ?thesis
    by (auto simp: load_entity_def bnd_def Let_def dest: set_entity_frame
             split: sum.splits prod.splits if_splits)
qed

lemma load_entities_frame:
  assumes run: "for_loop lo hi (load_entity dbg vp t i) st0 = Inr st'" and ne: "t' \<noteq> t"
  shows "sets_m (fst st') t' = sets_m (fst st0) t'"
proof (rule for_loop_pres [OF run, where P = "\<lambda>st. sets_m (fst st) t' = sets_m (fst st0) t'"])
  show "sets_m (fst st0) t' = sets_m (fst st0) t'" ..
next
  fix k st st' assume p: "sets_m (fst st) t' = sets_m (fst st0) t'"
    and b: "load_entity dbg vp t i k st = Inr st'"
  obtain a b c where st: "st = (a, b, c)" by (cases st)
  obtain a' b' c' where st': "st' = (a', b', c')" by (cases st')
  from load_entity_frame [OF b [unfolded st st'] ne] p
  show "sets_m (fst st') t' = sets_m (fst st0) t'" by (simp add: st st')
qed

lemma load_set_frame:
  assumes "load_set dbg fd vp t i (es, s, L) = Inr st'" "t' \<noteq> t"
  shows "sets_m (fst st') t' = sets_m es t'"
  using assms
  by (auto simp: load_set_def bnd_def Let_def split: sum.splits prod.splits
           dest!: load_entities_frame [where t' = t'])

lemma load_sets_frame:
  assumes run: "for_loop lo hi (load_set dbg fd vp t) st0 = Inr st'" and ne: "t' \<noteq> t"
  shows "sets_m (fst st') t' = sets_m (fst st0) t'"
proof (rule for_loop_pres [OF run, where P = "\<lambda>st. sets_m (fst st) t' = sets_m (fst st0) t'"])
  show "sets_m (fst st0) t' = sets_m (fst st0) t'" ..
next
  fix k st st' assume p: "sets_m (fst st) t' = sets_m (fst st0) t'"
    and b: "load_set dbg fd vp t k st = Inr st'"
  obtain a b c where st: "st = (a, b, c)" by (cases st)
  from load_set_frame [OF b [unfolded st] ne] p
  show "sets_m (fst st') t' = sets_m (fst st0) t'" by (simp add: st)
qed

lemma LoadEntitySets_frame:
  assumes "LoadEntitySets dbg fd scl (es, s) t header = Inr (es', s')" "t' \<noteq> t"
  shows "sets_m es' t' = sets_m es t'"
  using assms
  by (auto simp: LoadEntitySets_def bnd_def Let_def split: sum.splits prod.splits if_splits
           dest!: load_sets_frame [where t' = t'])




text \<open>Claim C10. Let the stream not be in a failed state, let its first line be read as
  \<^verbatim>\<open>MFEM sets v1.0\<close>, and let the keyword \<^verbatim>\<open>dimension\<close> and the number \<open>D\<close> follow. Then \<^verbatim>\<open>Load\<close>
  is the run of \<^verbatim>\<open>LoadEntitySets\<close> over the sections that the specification lists for \<open>D\<close>,
  in their order and stopping at the first error, followed by \<^verbatim>\<open>CopyMeshTables\<close>: the
  vertex and the element sets for every \<open>D\<close>, the edge sets exactly when \<open>D > 1\<close>, the face
  sets exactly when \<open>D > 2\<close>. A section that is not parsed leaves the groups of its kind as
  they were. And for \<open>D \<le> 1\<close>, when the vertex section has been read and the next word of
  the stream is \<^verbatim>\<open>edge_sets\<close>, the call is the fatal error: the word is compared with
  \<^verbatim>\<open>element_sets\<close>.\<close>

theorem Load_sections:
  assumes "\<not> failbit input"
    and "Load_header filter_dos input = (''MFEM sets v1.0'', s)"
    and "Load_dimension skip_comment_lines s = Inr (D, s0)"
  shows "Load dbg filter_dos skip_comment_lines es input =
           bnd (foldM (\<lambda>(t, header) st. LoadEntitySets dbg filter_dos skip_comment_lines st t header)
                  (sections D) (es, s0))
             (\<lambda>(es', s'). Inr (CopyMeshTables es', s')) \<and>
         (\<forall>es' s'. Load dbg filter_dos skip_comment_lines es input = Inr (es', s') \<longrightarrow>
            (D \<le> 1 \<longrightarrow> sets_m es' EDGE = sets_m es EDGE) \<and>
            (D \<le> 2 \<longrightarrow> sets_m es' FACE = sets_m es FACE)) \<and>
         (\<forall>es1 s1. D \<le> 1 \<and>
            LoadEntitySets dbg filter_dos skip_comment_lines (es, s0) VERTEX ''vertex_sets''
              = Inr (es1, s1) \<and>
            fst (read_string (skip_comment_lines s1 CHR ''#'') []) = ''edge_sets'' \<longrightarrow>
            Load dbg filter_dos skip_comment_lines es input = Inl Fatal)"
  (is "?A \<and> ?B \<and> ?C")
proof -
  let ?LES = "LoadEntitySets dbg filter_dos skip_comment_lines"
  have L: "Load dbg filter_dos skip_comment_lines es input =
      bnd (?LES (es, s0) VERTEX ''vertex_sets'') (\<lambda>st1.
      bnd (if D > 1 then ?LES st1 EDGE ''edge_sets'' else Inr st1) (\<lambda>st2.
      bnd (if D > 2 then ?LES st2 FACE ''face_sets'' else Inr st2) (\<lambda>st3.
      bnd (?LES st3 ELEMENT ''element_sets'') (\<lambda>(es', s'). Inr (CopyMeshTables es', s')))))"
    using assms by (simp add: Load_def)
  have A: ?A
    unfolding L sections_def
    by (cases "?LES (es, s0) VERTEX ''vertex_sets''")
      (auto simp: bnd_def split: sum.splits)
  have B: ?B
  proof (intro allI impI)
    fix es' s' assume r: "Load dbg filter_dos skip_comment_lines es input = Inr (es', s')"
    from r [unfolded L] obtain e1 s1 e2 s2 e3 s3 e4 where
      v: "?LES (es, s0) VERTEX ''vertex_sets'' = Inr (e1, s1)"
      and e: "(if D > 1 then ?LES (e1, s1) EDGE ''edge_sets'' else Inr (e1, s1)) = Inr (e2, s2)"
      and f: "(if D > 2 then ?LES (e2, s2) FACE ''face_sets'' else Inr (e2, s2)) = Inr (e3, s3)"
      and l: "?LES (e3, s3) ELEMENT ''element_sets'' = Inr (e4, s')"
      and c: "es' = CopyMeshTables e4"
      by (auto simp: bnd_def split: sum.splits)
    have f1: "sets_m e1 t = sets_m es t" if "t \<noteq> VERTEX" for t
      using LoadEntitySets_frame [OF v that] .
    have f4: "sets_m es' t = sets_m e3 t" if "t \<noteq> ELEMENT" for t
      using LoadEntitySets_frame [OF l that] c by (simp add: sets_m_CopyMeshTables)
    have fE: "sets_m e2 EDGE = sets_m e1 EDGE" if "D \<le> 1"
      using e that by simp
    have fF: "sets_m e3 t = sets_m e2 t" if "D \<le> 2 \<or> t \<noteq> FACE" for t
      using f that LoadEntitySets_frame [of dbg filter_dos skip_comment_lines e2 s2 FACE "''face_sets''" e3 s3 t]
      by (auto split: if_splits)
    have fE2: "sets_m e2 FACE = sets_m e1 FACE"
      using e LoadEntitySets_frame [of dbg filter_dos skip_comment_lines e1 s1 EDGE "''edge_sets''" e2 s2 FACE]
      by (auto split: if_splits)
    show "(D \<le> 1 \<longrightarrow> sets_m es' EDGE = sets_m es EDGE) \<and>
          (D \<le> 2 \<longrightarrow> sets_m es' FACE = sets_m es FACE)"
      using f1 [of EDGE] f1 [of FACE] f4 [of EDGE] f4 [of FACE] fE fF [of EDGE] fF [of FACE] fE2
      by simp
  qed
  have C: ?C
  proof (intro allI impI)
    fix es1 s1
    assume h: "D \<le> 1 \<and> ?LES (es, s0) VERTEX ''vertex_sets'' = Inr (es1, s1) \<and>
            fst (read_string (skip_comment_lines s1 CHR ''#'') []) = ''edge_sets''"
    obtain idt s2 where rs: "read_string (skip_comment_lines s1 CHR ''#'') [] = (idt, s2)"
      by (cases "read_string (skip_comment_lines s1 CHR ''#'') []")
    with h have "idt = ''edge_sets''" by simp
    then have "?LES (es1, s1) ELEMENT ''element_sets'' = Inl Fatal"
      by (simp add: LoadEntitySets_def rs)
    then show "Load dbg filter_dos skip_comment_lines es input = Inl Fatal"
      unfolding L using h by (simp add: bnd_def)
  qed
  show ?thesis by (rule conjI [OF A conjI [OF B C]])
qed

theorem Load_sections_witness:
  "Load_header (\<lambda>line. line) \<lparr>buf = example_file, eofbit = False, failbit = False\<rparr>
     = (''MFEM sets v1.0'',
        \<lparr>buf = ''\<newline>dimension\<newline>1\<newline>\<newline>vertex_sets\<newline>1\<newline>\<newline>ends\<newline>2\<newline>0 3\<newline>\<newline>edge_sets\<newline>0\<newline>\<newline>element_sets\<newline>0\<newline>'',
         eofbit = False, failbit = False\<rparr>) \<and>
   Load_dimension (\<lambda>s c. ws s)
     \<lparr>buf = ''\<newline>dimension\<newline>1\<newline>\<newline>vertex_sets\<newline>1\<newline>\<newline>ends\<newline>2\<newline>0 3\<newline>\<newline>edge_sets\<newline>0\<newline>\<newline>element_sets\<newline>0\<newline>'',
      eofbit = False, failbit = False\<rparr>
     = Inr (1, \<lparr>buf = ''vertex_sets\<newline>1\<newline>\<newline>ends\<newline>2\<newline>0 3\<newline>\<newline>edge_sets\<newline>0\<newline>\<newline>element_sets\<newline>0\<newline>'',
               eofbit = False, failbit = False\<rparr>) \<and>
   sections 1 = [(VERTEX, ''vertex_sets''), (ELEMENT, ''element_sets'')] \<and>
   map_sum id (\<lambda>(es', s'). (sets_m es' VERTEX, set_names_m es' VERTEX, s'))
     (LoadEntitySets False (\<lambda>line. line) (\<lambda>s c. ws s)
        (EntitySets_ctor example_mesh,
         \<lparr>buf = ''vertex_sets\<newline>1\<newline>\<newline>ends\<newline>2\<newline>0 3\<newline>\<newline>edge_sets\<newline>0\<newline>\<newline>element_sets\<newline>0\<newline>'',
          eofbit = False, failbit = False\<rparr>) VERTEX ''vertex_sets'')
     = Inr ([[0, 3]], [''ends''],
            \<lparr>buf = ''edge_sets\<newline>0\<newline>\<newline>element_sets\<newline>0\<newline>'', eofbit = False, failbit = False\<rparr>) \<and>
   Load False (\<lambda>line. line) (\<lambda>s c. ws s) (EntitySets_ctor example_mesh)
     \<lparr>buf = example_file, eofbit = False, failbit = False\<rparr> = Inl Fatal"
proof -
  let ?i = "\<lparr>buf = example_file, eofbit = False, failbit = False\<rparr>"
  let ?s = "\<lparr>buf = ''\<newline>dimension\<newline>1\<newline>\<newline>vertex_sets\<newline>1\<newline>\<newline>ends\<newline>2\<newline>0 3\<newline>\<newline>edge_sets\<newline>0\<newline>\<newline>element_sets\<newline>0\<newline>'',
             eofbit = False, failbit = False\<rparr>"
  let ?t = "\<lparr>buf = ''vertex_sets\<newline>1\<newline>\<newline>ends\<newline>2\<newline>0 3\<newline>\<newline>edge_sets\<newline>0\<newline>\<newline>element_sets\<newline>0\<newline>'',
             eofbit = False, failbit = False\<rparr>"
  let ?u = "\<lparr>buf = ''edge_sets\<newline>0\<newline>\<newline>element_sets\<newline>0\<newline>'', eofbit = False, failbit = False\<rparr>"
  let ?es = "EntitySets_ctor example_mesh"
  have h1: "\<not> failbit ?i" by simp
  have h2: "Load_header (\<lambda>line. line) ?i = (''MFEM sets v1.0'', ?s)" by code_simp
  have h3: "Load_dimension (\<lambda>s c. ws s) ?s = Inr (1, ?t)" by code_simp
  have sec: "sections 1 = [(VERTEX, ''vertex_sets''), (ELEMENT, ''element_sets'')]"
    by (simp add: sections_def)
  have v: "map_sum id (\<lambda>(es', s'). (sets_m es' VERTEX, set_names_m es' VERTEX, s'))
     (LoadEntitySets False (\<lambda>line. line) (\<lambda>s c. ws s) (?es, ?t) VERTEX ''vertex_sets'')
     = Inr ([[0, 3]], [''ends''], ?u)" by code_simp
  then obtain es1 where v1: "LoadEntitySets False (\<lambda>line. line) (\<lambda>s c. ws s) (?es, ?t) VERTEX ''vertex_sets''
     = Inr (es1, ?u)"
    by (cases "LoadEntitySets False (\<lambda>line. line) (\<lambda>s c. ws s) (?es, ?t) VERTEX ''vertex_sets''") auto
  have w: "fst (read_string (ws ?u) []) = ''edge_sets''" by code_simp
  from Load_sections [OF h1 h2 h3, of False ?es] v1 w
  have "Load False (\<lambda>line. line) (\<lambda>s c. ws s) ?es ?i = Inl Fatal" by blast
  then show ?thesis using h2 h3 sec v by blast
qed

end
